theory Spec2Isabelle
  imports Main "HOL-Library.Word"
begin

section \<open>Data model of \<open>floyd_warshall.cc\<close>\<close>

text \<open>
  The source works on C++ \<open>int\<close>: 32 bits, two's complement. Weights, vertex numbers and
  the entries of both matrices are \<open>int\<close>, modelled as \<open>32 word\<close> and read with \<open>sint\<close>;
  comparisons are the signed ones. Addition is the word addition: a sum that leaves the
  \<open>int\<close> range wraps around (the C++ standard leaves the overflow undefined; the wrap is
  what two's complement hardware computes).
\<close>

type_synonym int32 = "32 word"

definition INT_MAX :: int32 where
  "INT_MAX = 2147483647"

text \<open>The value \<open>-1\<close> that marks an empty entry of the next matrix.\<close>

definition NONE :: int32 where
  "NONE = - 1"

text \<open>
  The two ways the function can leave its normal path. The source checks nothing itself:
  \<open>LengthError\<close> is the exception the \<open>std::vector\<close> constructor throws for a size
  beyond \<open>max_size()\<close> (\<open>std::length_error\<close>; an allocator that is asked first throws
  \<open>std::bad_alloc\<close>, to the same effect), and \<open>OutOfBounds\<close> is an unchecked
  \<open>operator[]\<close> reaching outside a vector, which the language leaves undefined.
\<close>

datatype error = LengthError | OutOfBounds

type_synonym matrix = "int32 list list"

type_synonym edge = "int32 \<times> int32 \<times> int32"

section \<open>Vectors\<close>

text \<open>
  \<open>vector<T>(n, x)\<close> with \<open>n\<close> an \<open>int\<close>: the count is converted to \<open>size_t\<close>, so a
  negative \<open>n\<close> becomes a size above \<open>max_size()\<close> and the constructor throws.
\<close>

definition vector :: "int32 \<Rightarrow> 'a \<Rightarrow> error + 'a list" where
  "vector n x = (if n <s 0 then Inl LengthError else Inr (replicate (nat (sint n)) x))"

text \<open>An \<open>int\<close> used as an index is converted to the 64-bit \<open>size_t\<close>.\<close>

definition size_t :: "int32 \<Rightarrow> nat" where
  "size_t u = (if 0 \<le> sint u then nat (sint u) else nat (2 ^ 64 + sint u))"

text \<open>\<open>m[i][j]\<close> as a read and as a write, with the range check the source leaves out.\<close>

definition get :: "matrix \<Rightarrow> nat \<Rightarrow> nat \<Rightarrow> error + int32" where
  "get m i j = (if i < length m \<and> j < length (m ! i) then Inr (m ! i ! j) else Inl OutOfBounds)"

definition put :: "matrix \<Rightarrow> nat \<Rightarrow> nat \<Rightarrow> int32 \<Rightarrow> error + matrix" where
  "put m i j x =
     (if i < length m \<and> j < length (m ! i) then Inr (m[i := (m ! i)[j := x]])
      else Inl OutOfBounds)"

section \<open>Control\<close>

definition bind :: "error + 'a \<Rightarrow> ('a \<Rightarrow> error + 'b) \<Rightarrow> error + 'b" where
  "bind r f = (case r of Inl e \<Rightarrow> Inl e | Inr x \<Rightarrow> f x)"

text \<open>A \<open>for\<close> loop over a range: the body runs on each element in turn, on the state
  the previous round left; the first error ends the loop.\<close>

fun for_each :: "'a list \<Rightarrow> ('a \<Rightarrow> 's \<Rightarrow> error + 's) \<Rightarrow> 's \<Rightarrow> error + 's" where
  "for_each [] body s = Inr s"
| "for_each (x # xs) body s = bind (body x s) (for_each xs body)"

section \<open>The function \<open>floydWarshall\<close>\<close>

text \<open>Lines 33 to 35: the diagonal of the distance matrix.\<close>

definition init_diagonal :: "nat \<Rightarrow> matrix \<Rightarrow> error + matrix" where
  "init_diagonal n = for_each [0..<n] (\<lambda>i dist. put dist i i 0)"

text \<open>Lines 36 to 41: one edge, then all of them in input order.\<close>

definition init_edge :: "edge \<Rightarrow> matrix \<times> matrix \<Rightarrow> error + matrix \<times> matrix" where
  "init_edge e s =
     (case e of (u, v, weight) \<Rightarrow> case s of (dist, nxt) \<Rightarrow>
        bind (put dist (size_t u) (size_t v) weight) (\<lambda>dist'.
        bind (put nxt (size_t u) (size_t v) v) (\<lambda>nxt'.
        Inr (dist', nxt'))))"

definition init_edges :: "edge list \<Rightarrow> matrix \<times> matrix \<Rightarrow> error + matrix \<times> matrix" where
  "init_edges edges = for_each edges init_edge"

text \<open>Lines 45 to 48: the body of the innermost loop. The condition is evaluated left to
  right and stops at the first false conjunct.\<close>

definition relax :: "nat \<Rightarrow> nat \<Rightarrow> nat \<Rightarrow> matrix \<times> matrix \<Rightarrow> error + matrix \<times> matrix" where
  "relax k i j s =
     (case s of (dist, nxt) \<Rightarrow>
        bind (get dist i k) (\<lambda>dik.
        if dik = INT_MAX then Inr s
        else bind (get dist k j) (\<lambda>dkj.
        if dkj = INT_MAX then Inr s
        else bind (get dist i j) (\<lambda>dij.
        if dik + dkj <s dij then
          bind (put dist i j (dik + dkj)) (\<lambda>dist'.
          bind (get nxt i k) (\<lambda>nik.
          bind (put nxt i j nik) (\<lambda>nxt'.
          Inr (dist', nxt'))))
        else Inr s))))"

text \<open>Lines 42 to 51: the three nested loops, \<open>k\<close> outermost.\<close>

definition relax_all :: "nat \<Rightarrow> matrix \<times> matrix \<Rightarrow> error + matrix \<times> matrix" where
  "relax_all n =
     for_each [0..<n] (\<lambda>k.
       for_each [0..<n] (\<lambda>i.
         for_each [0..<n] (\<lambda>j. relax k i j)))"

text \<open>Lines 52 to 58: the scan of the diagonal, leaving at the first negative entry.\<close>

fun negative_diagonal :: "matrix \<Rightarrow> nat list \<Rightarrow> error + bool" where
  "negative_diagonal dist [] = Inr False"
| "negative_diagonal dist (i # is) =
     bind (get dist i i) (\<lambda>dii.
       if dii <s 0 then Inr True else negative_diagonal dist is)"

text \<open>Lines 30 to 41: both matrices allocated and filled from the edge list.\<close>

definition initialise :: "int32 \<Rightarrow> edge list \<Rightarrow> error + matrix \<times> matrix" where
  "initialise numVertices edges =
     bind (vector numVertices INT_MAX) (\<lambda>row.
     bind (vector numVertices row) (\<lambda>dist0.
     bind (vector numVertices NONE) (\<lambda>nrow.
     bind (vector numVertices nrow) (\<lambda>next0.
     bind (init_diagonal (nat (sint numVertices)) dist0) (\<lambda>dist1.
     init_edges edges (dist1, next0))))))"

definition floydWarshall :: "int32 \<Rightarrow> edge list \<Rightarrow> error + (matrix \<times> matrix) \<times> bool" where
  "floydWarshall numVertices edges =
     bind (initialise numVertices edges) (\<lambda>s.
     bind (relax_all (nat (sint numVertices)) s) (\<lambda>(dist, nxt).
     bind (negative_diagonal dist [0..<nat (sint numVertices)]) (\<lambda>negativeCycle.
     Inr ((dist, nxt), negativeCycle))))"

section \<open>Notions used to state the properties\<close>

text \<open>A matrix with \<open>n\<close> rows of \<open>n\<close> entries, and a write that stays inside it.\<close>

definition square :: "nat \<Rightarrow> matrix \<Rightarrow> bool" where
  "square n m \<longleftrightarrow> length m = n \<and> (\<forall>i<n. length (m ! i) = n)"

definition squares :: "nat \<Rightarrow> matrix \<times> matrix \<Rightarrow> bool" where
  "squares n s \<longleftrightarrow> square n (fst s) \<and> square n (snd s)"

definition upd :: "matrix \<Rightarrow> nat \<Rightarrow> nat \<Rightarrow> int32 \<Rightarrow> matrix" where
  "upd m i j x = m[i := (m ! i)[j := x]]"

text \<open>The input contract: a vertex count that is not negative, and edges between
  vertices \<open>0 .. numVertices - 1\<close>.\<close>

definition valid_input :: "int32 \<Rightarrow> edge list \<Rightarrow> bool" where
  "valid_input numVertices edges \<longleftrightarrow>
     0 \<le>s numVertices \<and>
     (\<forall>(u, v, w) \<in> set edges. 0 \<le>s u \<and> u <s numVertices \<and> 0 \<le>s v \<and> v <s numVertices)"

text \<open>The graph an edge list stands for: of the edges from \<open>i\<close> to \<open>j\<close>, the one that
  comes last in the list gives the weight.\<close>

definition edge_weight :: "edge list \<Rightarrow> nat \<Rightarrow> nat \<Rightarrow> int32 option" where
  "edge_weight edges i j =
     (case filter (\<lambda>(u, v, w). size_t u = i \<and> size_t v = j) edges of
        [] \<Rightarrow> None
      | e # es \<Rightarrow> Some (snd (snd (last (e # es)))))"

text \<open>What one round of the innermost loop does to two matrices of the right shape.\<close>

definition relax_step :: "nat \<Rightarrow> nat \<Rightarrow> nat \<Rightarrow> matrix \<times> matrix \<Rightarrow> matrix \<times> matrix" where
  "relax_step k i j s =
     (case s of (dist, nxt) \<Rightarrow>
        if dist ! i ! k \<noteq> INT_MAX \<and> dist ! k ! j \<noteq> INT_MAX \<and>
           dist ! i ! k + dist ! k ! j <s dist ! i ! j
        then (upd dist i j (dist ! i ! k + dist ! k ! j), upd nxt i j (nxt ! i ! k))
        else s)"

text \<open>How the two returned matrices fit together: an empty entry of the next matrix
  goes with an entry of the distance matrix that was never written, a filled one with a
  finite distance.\<close>

definition next_inv :: "nat \<Rightarrow> edge list \<Rightarrow> matrix \<times> matrix \<Rightarrow> bool" where
  "next_inv n es s \<longleftrightarrow>
     (\<forall>i<n. \<forall>j<n.
        (snd s ! i ! j = NONE \<longrightarrow>
           fst s ! i ! j = (if i = j then 0 else INT_MAX) \<and> edge_weight es i j = None) \<and>
        (snd s ! i ! j \<noteq> NONE \<longrightarrow>
           fst s ! i ! j \<noteq> INT_MAX \<and>
           (i = j \<longrightarrow> edge_weight es i i \<noteq> None \<or> fst s ! i ! i <s 0)))"

section \<open>Shortest paths\<close>

text \<open>Weights and distances that may be missing: \<open>None\<close> is "no edge" or "no path".
  A sum is missing when a summand is, a minimum when both arguments are.\<close>

definition oplus :: "int option \<Rightarrow> int option \<Rightarrow> int option" where
  "oplus x y =
     (case x of None \<Rightarrow> None
      | Some a \<Rightarrow> (case y of None \<Rightarrow> None | Some b \<Rightarrow> Some (a + b)))"

definition omin :: "int option \<Rightarrow> int option \<Rightarrow> int option" where
  "omin x y =
     (case x of None \<Rightarrow> y
      | Some a \<Rightarrow> (case y of None \<Rightarrow> Some a | Some b \<Rightarrow> Some (min a b)))"

text \<open>The graph of an edge list, with the weights read as integers.\<close>

definition graph_weights :: "edge list \<Rightarrow> nat \<Rightarrow> nat \<Rightarrow> int option" where
  "graph_weights es a b = map_option sint (edge_weight es a b)"

text \<open>A walk is the list of the vertices it visits, at least one. Its weight is the sum of
  the weights of its edges, taken as integers: no walk is too long or too heavy here.\<close>

fun walk_weight :: "edge list \<Rightarrow> nat list \<Rightarrow> int option" where
  "walk_weight es [] = None"
| "walk_weight es [v] = Some 0"
| "walk_weight es (u # v # p) =
     oplus (map_option sint (edge_weight es u v)) (walk_weight es (v # p))"

definition walk :: "edge list \<Rightarrow> nat \<Rightarrow> nat \<Rightarrow> nat list \<Rightarrow> bool" where
  "walk es i j vs \<longleftrightarrow> vs \<noteq> [] \<and> hd vs = i \<and> last vs = j \<and> walk_weight es vs \<noteq> None"

definition reachable :: "edge list \<Rightarrow> nat \<Rightarrow> nat \<Rightarrow> bool" where
  "reachable es i j \<longleftrightarrow> (\<exists>vs. walk es i j vs)"

text \<open>\<open>d\<close> is the shortest-path weight from \<open>i\<close> to \<open>j\<close>: some walk weighs \<open>d\<close> and none
  weighs less.\<close>

definition shortest :: "edge list \<Rightarrow> nat \<Rightarrow> nat \<Rightarrow> int \<Rightarrow> bool" where
  "shortest es i j d \<longleftrightarrow>
     (\<exists>vs. walk es i j vs \<and> walk_weight es vs = Some d) \<and>
     (\<forall>vs c. walk es i j vs \<longrightarrow> walk_weight es vs = Some c \<longrightarrow> d \<le> c)"

text \<open>A closed walk of negative weight.\<close>

definition negative_cycle :: "edge list \<Rightarrow> bool" where
  "negative_cycle es \<longleftrightarrow> (\<exists>v vs c. walk es v v vs \<and> walk_weight es vs = Some c \<and> c < 0)"

text \<open>The distance matrix read as distances: \<open>INT_MAX\<close> stands for "no path".\<close>

definition val :: "int32 \<Rightarrow> int option" where
  "val x = (if x = INT_MAX then None else Some (sint x))"

definition view :: "matrix \<Rightarrow> nat \<Rightarrow> nat \<Rightarrow> int option" where
  "view d i j = val (d ! i ! j)"

text \<open>The value lines 45 to 48 leave in \<open>dist[i][j]\<close>.\<close>

definition rlx :: "matrix \<Rightarrow> nat \<Rightarrow> nat \<Rightarrow> nat \<Rightarrow> int32" where
  "rlx d k i j =
     (if d ! i ! k \<noteq> INT_MAX \<and> d ! k ! j \<noteq> INT_MAX \<and> d ! i ! k + d ! k ! j <s d ! i ! j
      then d ! i ! k + d ! k ! j else d ! i ! j)"

text \<open>What the distance matrix holds after lines 33 to 41, as distances: the weight of the
  edge, and 0 from a vertex without a self-loop to itself.\<close>

definition initial_weights :: "edge list \<Rightarrow> nat \<Rightarrow> nat \<Rightarrow> int option" where
  "initial_weights es a b =
     (case edge_weight es a b of Some w \<Rightarrow> Some (sint w)
      | None \<Rightarrow> if a = b then Some 0 else None)"

text \<open>The weight of the walk that goes from \<open>i\<close> through the vertices \<open>p\<close> to \<open>j\<close>, in a
  matrix \<open>W\<close> of weights.\<close>

fun cost :: "(nat \<Rightarrow> nat \<Rightarrow> int option) \<Rightarrow> nat \<Rightarrow> nat list \<Rightarrow> nat \<Rightarrow> int option" where
  "cost W i [] j = W i j"
| "cost W i (v # p) j = oplus (W i v) (cost W v p j)"

text \<open>The invariant of the outer loop, before round \<open>k\<close>: every finite entry is the weight
  of a walk whose inner vertices are below \<open>k\<close> and all different, and no walk with inner
  vertices below \<open>k\<close> weighs less than the entry.\<close>

definition attained :: "(nat \<Rightarrow> nat \<Rightarrow> int option) \<Rightarrow> nat \<Rightarrow> (nat \<Rightarrow> nat \<Rightarrow> int option) \<Rightarrow> nat \<Rightarrow> nat \<Rightarrow> bool" where
  "attained W k D i j \<longleftrightarrow>
     (\<forall>c. D i j = Some c \<longrightarrow> (\<exists>p. distinct p \<and> set p \<subseteq> {..<k} \<and> cost W i p j = Some c))"

definition minimal :: "(nat \<Rightarrow> nat \<Rightarrow> int option) \<Rightarrow> nat \<Rightarrow> (nat \<Rightarrow> nat \<Rightarrow> int option) \<Rightarrow> nat \<Rightarrow> nat \<Rightarrow> bool" where
  "minimal W k D i j \<longleftrightarrow>
     (\<forall>p c. set p \<subseteq> {..<k} \<longrightarrow> cost W i p j = Some c \<longrightarrow> (\<exists>c'. D i j = Some c' \<and> c' \<le> c))"

definition fw_inv :: "(nat \<Rightarrow> nat \<Rightarrow> int option) \<Rightarrow> nat \<Rightarrow> nat \<Rightarrow> (nat \<Rightarrow> nat \<Rightarrow> int option) \<Rightarrow> bool" where
  "fw_inv W n k D \<longleftrightarrow> (\<forall>i<n. \<forall>j<n. attained W k D i j \<and> minimal W k D i j)"

text \<open>Weights small enough that no walk without a repeated inner vertex leaves the range
  of \<open>int\<close>, nor reaches \<open>INT_MAX\<close>.\<close>

definition bounded_weights :: "(nat \<Rightarrow> nat \<Rightarrow> int option) \<Rightarrow> nat \<Rightarrow> int \<Rightarrow> bool" where
  "bounded_weights W n B \<longleftrightarrow>
     0 \<le> B \<and> (int n + 1) * B < 1073741824 \<and>
     (\<forall>a<n. \<forall>b<n. \<forall>x. W a b = Some x \<longrightarrow> \<bar>x\<bar> \<le> B) \<and>
     (\<forall>a<n. W a a \<noteq> None)"

section \<open>Matrices and loops\<close>

lemma get_square: "square n m \<Longrightarrow> i < n \<Longrightarrow> j < n \<Longrightarrow> get m i j = Inr (m ! i ! j)"
  by (simp add: get_def square_def)

lemma put_square: "square n m \<Longrightarrow> i < n \<Longrightarrow> j < n \<Longrightarrow> put m i j x = Inr (upd m i j x)"
  by (simp add: put_def square_def upd_def)

lemma square_upd: "square n m \<Longrightarrow> square n (upd m i j x)"
  unfolding square_def upd_def
  by (cases "i < length m") (auto simp: nth_list_update)

lemma nth_upd:
  "square n m \<Longrightarrow> a < n \<Longrightarrow> b < n \<Longrightarrow> i < n \<Longrightarrow> j < n \<Longrightarrow>
   upd m i j x ! a ! b = (if a = i \<and> b = j then x else m ! a ! b)"
  by (auto simp: square_def upd_def nth_list_update)

lemma bind_Inr [simp]: "bind (Inr x) f = f x"
  by (simp add: bind_def)

lemma bind_Inl [simp]: "bind (Inl e) f = Inl e"
  by (simp add: bind_def)

lemma for_each_append:
  "for_each (xs @ ys) body s = bind (for_each xs body s) (for_each ys body)"
  by (induction xs arbitrary: s) (simp_all add: bind_def split: sum.splits)

lemma for_each_rule:
  assumes "P 0 s"
    and "\<And>i t. i < n \<Longrightarrow> P i t \<Longrightarrow> \<exists>t'. body i t = Inr t' \<and> P (Suc i) t'"
  shows "\<exists>s'. for_each [0..<n] body s = Inr s' \<and> P n s'"
  using assms(2)
proof (induction n)
  case 0
  then show ?case using assms(1) by simp
next
  case (Suc n)
  then obtain t where t: "for_each [0..<n] body s = Inr t" "P n t"
    by (metis less_Suc_eq)
  from Suc.prems [of n t] t obtain t' where "body n t = Inr t'" "P (Suc n) t'"
    by auto
  with t show ?case
    by (simp add: for_each_append)
qed

lemma relax_eq:
  assumes "squares n s" "k < n" "i < n" "j < n"
  shows "relax k i j s = Inr (relax_step k i j s)"
proof -
  obtain dist nxt where s: "s = (dist, nxt)" by (cases s)
  with assms have sq: "square n dist" "square n nxt" by (simp_all add: squares_def)
  show ?thesis
    unfolding s relax_def relax_step_def
    using assms(2-4)
    by (simp add: get_square [OF sq(1)] get_square [OF sq(2)] put_square [OF sq(1)]
        put_square [OF sq(2)])
qed

lemma squares_relax_step: "squares n s \<Longrightarrow> squares n (relax_step k i j s)"
  by (cases s) (simp add: squares_def relax_step_def square_upd)

text \<open>The three loops under an invariant that every single relaxation keeps.\<close>

lemma relax_all_rule:
  assumes sq: "squares n s" and P: "P s"
    and step: "\<And>k i j t. k < n \<Longrightarrow> i < n \<Longrightarrow> j < n \<Longrightarrow> squares n t \<Longrightarrow> P t \<Longrightarrow>
                 P (relax_step k i j t)"
  shows "\<exists>s'. relax_all n s = Inr s' \<and> squares n s' \<and> P s'"
proof -
  let ?Q = "\<lambda>(m :: nat) t. squares n t \<and> P t"
  have inner: "\<exists>t'. for_each [0..<n] (\<lambda>j. relax k i j) t = Inr t' \<and> squares n t' \<and> P t'"
    if "k < n" "i < n" "squares n t" "P t" for k i t
  proof -
    have "\<exists>t'. for_each [0..<n] (\<lambda>j. relax k i j) t = Inr t' \<and> ?Q n t'"
    proof (rule for_each_rule [where P = ?Q])
      show "?Q 0 t" using that by simp
    next
      fix j u assume "j < n" "?Q j u"
      then have "relax k i j u = Inr (relax_step k i j u) \<and> ?Q (Suc j) (relax_step k i j u)"
        using that(1,2) by (simp add: relax_eq [where n = n] squares_relax_step step)
      then show "\<exists>t'. relax k i j u = Inr t' \<and> ?Q (Suc j) t'" ..
    qed
    then show ?thesis by simp
  qed
  have middle: "\<exists>t'. for_each [0..<n] (\<lambda>i. for_each [0..<n] (\<lambda>j. relax k i j)) t = Inr t' \<and> squares n t' \<and> P t'"
    if "k < n" "squares n t" "P t" for k t
  proof -
    have "\<exists>t'. for_each [0..<n] (\<lambda>i. for_each [0..<n] (\<lambda>j. relax k i j)) t = Inr t' \<and> ?Q n t'"
    proof (rule for_each_rule [where P = ?Q])
      show "?Q 0 t" using that by simp
    next
      fix i u assume "i < n" "?Q i u"
      then show "\<exists>t'. for_each [0..<n] (\<lambda>j. relax k i j) u = Inr t' \<and> ?Q (Suc i) t'"
        using inner [OF that(1), of i u] by simp
    qed
    then show ?thesis by simp
  qed
  have "\<exists>s'. relax_all n s = Inr s' \<and> ?Q n s'"
    unfolding relax_all_def
  proof (rule for_each_rule [where P = ?Q])
    show "?Q 0 s" using sq P by simp
  next
    fix k u assume "k < n" "?Q k u"
    then show "\<exists>t'. for_each [0..<n] (\<lambda>i. for_each [0..<n] (\<lambda>j. relax k i j)) u = Inr t' \<and> ?Q (Suc k) t'"
      using middle [of k u] by simp
  qed
  then show ?thesis by simp
qed

lemma vector_ok: "0 \<le>s nv \<Longrightarrow> vector nv x = Inr (replicate (nat (sint nv)) x)"
  by (simp add: vector_def word_sle_eq word_sless_alt)

lemma square_replicate: "square n (replicate n (replicate n x))"
  by (simp add: square_def)

lemma init_diagonal_ok:
  "\<exists>d. init_diagonal n (replicate n (replicate n x)) = Inr d \<and> square n d \<and>
       (\<forall>i<n. \<forall>j<n. d ! i ! j = (if i = j then 0 else x))"
proof -
  let ?d0 = "replicate n (replicate n x)"
  let ?P = "\<lambda>m d. square n d \<and> (\<forall>i<n. \<forall>j<n. d ! i ! j = (if i = j \<and> i < m then 0 else x))"
  have "\<exists>d. for_each [0..<n] (\<lambda>i dist. put dist i i 0) ?d0 = Inr d \<and> ?P n d"
  proof (rule for_each_rule [where P = ?P])
    show "?P 0 ?d0" by (simp add: square_replicate)
  next
    fix i t assume "i < n" "?P i t"
    then show "\<exists>t'. put t i i 0 = Inr t' \<and> ?P (Suc i) t'"
      by (auto simp: put_square square_upd nth_upd less_Suc_eq)
  qed
  then show ?thesis by (auto simp: init_diagonal_def)
qed

lemma valid_edge:
  assumes "valid_input nv es" "(u, v, w) \<in> set es"
  shows "size_t u < nat (sint nv)" "size_t v < nat (sint nv)" "0 \<le> sint v"
  using assms unfolding valid_input_def
  by (auto simp: size_t_def word_sle_eq word_sless_alt)

lemma edge_weight_Nil [simp]: "edge_weight [] i j = None"
  by (simp add: edge_weight_def)

lemma edge_weight_Cons:
  "edge_weight ((u, v, w) # es) i j =
     (case edge_weight es i j of Some x \<Rightarrow> Some x
      | None \<Rightarrow> if size_t u = i \<and> size_t v = j then Some w else None)"
  by (auto simp: edge_weight_def split: list.splits)

lemma word_of_nat_size_t: "0 \<le> sint (v :: int32) \<Longrightarrow> word_of_nat (size_t v) = v"
  by (simp add: size_t_def)

lemma init_edges_ok:
  assumes "\<forall>(u, v, w) \<in> set es. size_t u < n \<and> size_t v < n \<and> 0 \<le> sint v"
    and "squares n (d, nx)"
  shows "\<exists>d' nx'. init_edges es (d, nx) = Inr (d', nx') \<and> squares n (d', nx') \<and>
           (\<forall>i<n. \<forall>j<n.
              d' ! i ! j = (case edge_weight es i j of Some w \<Rightarrow> w | None \<Rightarrow> d ! i ! j) \<and>
              nx' ! i ! j = (case edge_weight es i j of Some w \<Rightarrow> word_of_nat j | None \<Rightarrow> nx ! i ! j))"
  using assms
proof (induction es arbitrary: d nx)
  case Nil
  then show ?case by (simp add: init_edges_def)
next
  case (Cons e es)
  obtain u v w where e: "e = (u, v, w)" by (cases e)
  from Cons.prems e have uv: "size_t u < n" "size_t v < n" "0 \<le> sint v"
    and sq: "square n d" "square n nx"
    by (auto simp: squares_def)
  let ?d = "upd d (size_t u) (size_t v) w" and ?nx = "upd nx (size_t u) (size_t v) v"
  have one: "init_edge e (d, nx) = Inr (?d, ?nx)"
    using uv sq by (simp add: init_edge_def e put_square)
  have "squares n (?d, ?nx)"
    using sq by (simp add: squares_def square_upd)
  with Cons.IH [of ?d ?nx] Cons.prems(1)
  obtain d' nx' where r: "init_edges es (?d, ?nx) = Inr (d', nx')" "squares n (d', nx')"
    and ent: "\<forall>i<n. \<forall>j<n.
        d' ! i ! j = (case edge_weight es i j of Some w \<Rightarrow> w | None \<Rightarrow> ?d ! i ! j) \<and>
        nx' ! i ! j = (case edge_weight es i j of Some w \<Rightarrow> word_of_nat j | None \<Rightarrow> ?nx ! i ! j)"
    by auto
  have "init_edges (e # es) (d, nx) = Inr (d', nx')"
    using one r(1) by (simp add: init_edges_def)
  moreover have "d' ! i ! j = (case edge_weight (e # es) i j of Some w \<Rightarrow> w | None \<Rightarrow> d ! i ! j) \<and>
        nx' ! i ! j = (case edge_weight (e # es) i j of Some w \<Rightarrow> word_of_nat j | None \<Rightarrow> nx ! i ! j)"
    if "i < n" "j < n" for i j
    using ent that uv sq
    by (auto simp: e edge_weight_Cons nth_upd [where n = n] word_of_nat_size_t split: option.splits)
  ultimately show ?case using r(2) by blast
qed

lemma initialise_ok:
  assumes "valid_input nv es"
  shows "\<exists>d nx. initialise nv es = Inr (d, nx) \<and> squares (nat (sint nv)) (d, nx) \<and>
           (\<forall>i<nat (sint nv). \<forall>j<nat (sint nv).
              d ! i ! j = (case edge_weight es i j of Some w \<Rightarrow> w
                           | None \<Rightarrow> if i = j then 0 else INT_MAX) \<and>
              nx ! i ! j = (case edge_weight es i j of Some w \<Rightarrow> word_of_nat j | None \<Rightarrow> NONE))"
proof -
  let ?n = "nat (sint nv)"
  from assms have nv: "0 \<le>s nv" by (simp add: valid_input_def)
  obtain d1 where d1: "init_diagonal ?n (replicate ?n (replicate ?n INT_MAX)) = Inr d1"
    "square ?n d1" "\<forall>i<?n. \<forall>j<?n. d1 ! i ! j = (if i = j then 0 else INT_MAX)"
    using init_diagonal_ok [of ?n INT_MAX] by blast
  let ?nx = "replicate ?n (replicate ?n NONE)"
  have es: "\<forall>(u, v, w) \<in> set es. size_t u < ?n \<and> size_t v < ?n \<and> 0 \<le> sint v"
    using valid_edge [OF assms] by blast
  have "squares ?n (d1, ?nx)"
    using d1(2) by (simp add: squares_def square_replicate)
  from init_edges_ok [OF es this]
  obtain d nx where r: "init_edges es (d1, ?nx) = Inr (d, nx)" "squares ?n (d, nx)"
    "\<forall>i<?n. \<forall>j<?n.
        d ! i ! j = (case edge_weight es i j of Some w \<Rightarrow> w | None \<Rightarrow> d1 ! i ! j) \<and>
        nx ! i ! j = (case edge_weight es i j of Some w \<Rightarrow> word_of_nat j | None \<Rightarrow> ?nx ! i ! j)"
    by blast
  have "initialise nv es = Inr (d, nx)"
    using d1(1) r(1) by (simp add: initialise_def vector_ok [OF nv])
  moreover have "\<forall>i<?n. \<forall>j<?n.
        d ! i ! j = (case edge_weight es i j of Some w \<Rightarrow> w
                           | None \<Rightarrow> if i = j then 0 else INT_MAX) \<and>
        nx ! i ! j = (case edge_weight es i j of Some w \<Rightarrow> word_of_nat j | None \<Rightarrow> NONE)"
    using r(3) d1(3) by (auto split: option.splits)
  ultimately show ?thesis using r(2) by blast
qed

lemma negative_diagonal_eq:
  "square n d \<Longrightarrow> \<forall>i\<in>set xs. i < n \<Longrightarrow>
   negative_diagonal d xs = Inr (\<exists>i\<in>set xs. d ! i ! i <s 0)"
  by (induction xs) (auto simp: get_square)

lemma floydWarshall_run:
  assumes "initialise nv es = Inr s" "relax_all (nat (sint nv)) s = Inr (d, nx)"
    "square (nat (sint nv)) d"
  shows "floydWarshall nv es = Inr ((d, nx), \<exists>i<nat (sint nv). d ! i ! i <s 0)"
proof -
  have "negative_diagonal d [0..<nat (sint nv)] = Inr (\<exists>i<nat (sint nv). d ! i ! i <s 0)"
    using negative_diagonal_eq [OF assms(3), of "[0..<nat (sint nv)]"] by auto
  then show ?thesis
    using assms(1,2) by (simp add: floydWarshall_def)
qed

section \<open>Words, edges and the invariant of the next matrix\<close>

lemma sint32_range: "- 2147483648 \<le> sint (x :: int32)" "sint (x :: int32) < 2147483648"
  using sint_ge [of x] sint_lt [of x] by simp_all

lemma sint_add32:
  fixes a b :: int32
  assumes "- 2147483648 \<le> sint a + sint b" "sint a + sint b < 2147483648"
  shows "sint (a + b) = sint a + sint b"
  using assms by (simp add: sint_word_add signed_take_bit_int_eq_self)

lemma sint_INT_MAX: "sint INT_MAX = 2147483647"
  by (simp add: INT_MAX_def)

lemma sint_le_INT_MAX: "sint (x :: int32) \<le> sint INT_MAX"
  using sint32_range(2) [of x] by (simp add: sint_INT_MAX)

lemma sless_not_INT_MAX: "x <s y \<Longrightarrow> x \<noteq> INT_MAX"
  using sint_le_INT_MAX [of y] by (auto simp: word_sless_alt)

lemma size_t_inj:
  "0 \<le> sint u \<Longrightarrow> 0 \<le> sint u' \<Longrightarrow> size_t u = size_t u' \<Longrightarrow> u = u'"
  by (metis word_of_nat_size_t)

lemma edge_weight_alt:
  "edge_weight es i j =
     (let f = filter (\<lambda>(u, v, w). size_t u = i \<and> size_t v = j) es
      in if f = [] then None else Some (snd (snd (last f))))"
  by (simp add: edge_weight_def split: list.splits)

lemma valid_edge_nonneg:
  assumes "valid_input nv es" "(u, v, w) \<in> set es"
  shows "0 \<le> sint u" "0 \<le> sint v"
  using assms unfolding valid_input_def
  by (auto simp: word_sle_eq)

lemma edge_weight_last:
  assumes "\<forall>(u', v', w') \<in> set es2. \<not> (size_t u' = size_t u \<and> size_t v' = size_t v)"
  shows "edge_weight (es1 @ (u, v, w) # es2) (size_t u) (size_t v) = Some w"
proof -
  have "filter (\<lambda>(u', v', w'). size_t u' = size_t u \<and> size_t v' = size_t v) es2 = []"
    using assms by (auto simp: filter_empty_conv)
  then show ?thesis
    by (simp add: edge_weight_alt)
qed

lemma relax_all_result:
  assumes "squares n s" "P s" "relax_all n s = Inr s'"
    and "\<And>k i j t. k < n \<Longrightarrow> i < n \<Longrightarrow> j < n \<Longrightarrow> squares n t \<Longrightarrow> P t \<Longrightarrow>
           P (relax_step k i j t)"
  shows "P s'"
  using relax_all_rule [of n s P, OF assms(1,2,4)] assms(3) by auto

lemma relax_step_diag:
  assumes "squares n t" "k < n" "a < n" "b < n" "i < n" "fst t ! i ! i \<le>s 0"
  shows "fst (relax_step k a b t) ! i ! i \<le>s 0"
proof -
  obtain d nx where t: "t = (d, nx)" by (cases t)
  with assms have sq: "square n d" by (simp add: squares_def)
  show ?thesis
    using assms(2-6) unfolding t relax_step_def
    by (auto simp: nth_upd [OF sq] word_sle_eq word_sless_alt)
qed

lemma edge_weight_mem:
  assumes "edge_weight es i j = Some w"
  shows "\<exists>u v. (u, v, w) \<in> set es \<and> size_t u = i \<and> size_t v = j"
proof -
  let ?f = "filter (\<lambda>(u, v, w). size_t u = i \<and> size_t v = j) es"
  from assms have ne: "?f \<noteq> []" and w: "w = snd (snd (last ?f))"
    by (auto simp: edge_weight_alt Let_def split: if_splits)
  from ne have mem: "last ?f \<in> set ?f" by (rule last_in_set)
  obtain u v w' where l: "last ?f = (u, v, w')" by (cases "last ?f")
  from mem have "(u, v, w') \<in> set es \<and> size_t u = i \<and> size_t v = j"
    unfolding l by simp
  moreover have "w = w'" using w l by simp
  ultimately show ?thesis by blast
qed

lemma word_of_nat_not_NONE:
  assumes "j < nat (sint (nv :: int32))"
  shows "(word_of_nat j :: int32) \<noteq> NONE"
proof
  assume "(word_of_nat j :: int32) = NONE"
  then have "(word_of_nat (Suc j) :: int32) = 0" by (simp add: NONE_def)
  then have "2 ^ 32 dvd Suc j" using word_of_nat_eq_0_iff [where ?'a = 32, of "Suc j"] by simp
  then have "2 ^ 32 \<le> Suc j" by (rule dvd_imp_le) simp
  moreover have "j < 2147483648" using assms sint32_range(2) [of nv] by linarith
  ultimately show False by simp
qed

lemma next_inv_relax_step:
  assumes sq: "squares n t" and k: "k < n" and a: "a < n" and b: "b < n"
    and inv: "next_inv n es t"
  shows "next_inv n es (relax_step k a b t)"
proof -
  obtain d nx where t: "t = (d, nx)" by (cases t)
  with sq have sqd: "square n d" and sqn: "square n nx" by (simp_all add: squares_def)
  let ?x = "d ! a ! k + d ! k ! b"
  show ?thesis
  proof (cases "d ! a ! k \<noteq> INT_MAX \<and> d ! k ! b \<noteq> INT_MAX \<and> ?x <s d ! a ! b")
    case False
    then have "relax_step k a b t = t" by (auto simp: relax_step_def t)
    with inv show ?thesis by simp
  next
    case True
    then have step: "relax_step k a b t = (upd d a b ?x, upd nx a b (nx ! a ! k))"
      by (simp add: relax_step_def t)
    have x: "?x \<noteq> INT_MAX" using True by (auto dest: sless_not_INT_MAX)
    have nk: "nx ! a ! k \<noteq> NONE"
    proof
      assume "nx ! a ! k = NONE"
      with inv a k have "d ! a ! k = (if a = k then 0 else INT_MAX)"
        by (simp add: next_inv_def t)
      with True have "a = k" "d ! a ! k = 0" by (auto split: if_splits)
      with True show False by (simp add: word_sless_alt)
    qed
    have diag: "edge_weight es a a \<noteq> None \<or> ?x <s 0" if "a = b"
    proof (cases "nx ! a ! a = NONE")
      case True
      with inv a have "d ! a ! a = 0" by (simp add: next_inv_def t)
      with \<open>d ! a ! k \<noteq> INT_MAX \<and> d ! k ! b \<noteq> INT_MAX \<and> ?x <s d ! a ! b\<close> that
      show ?thesis by simp
    next
      case False
      with inv a have "edge_weight es a a \<noteq> None \<or> d ! a ! a <s 0"
        by (simp add: next_inv_def t)
      with \<open>d ! a ! k \<noteq> INT_MAX \<and> d ! k ! b \<noteq> INT_MAX \<and> ?x <s d ! a ! b\<close> that
      show ?thesis by (auto simp: word_sless_alt)
    qed
    show ?thesis
      unfolding next_inv_def step fst_conv snd_conv
    proof (intro allI impI)
      fix i j assume ij: "i < n" "j < n"
      show "(upd nx a b (nx ! a ! k) ! i ! j = NONE \<longrightarrow>
             upd d a b ?x ! i ! j = (if i = j then 0 else INT_MAX) \<and> edge_weight es i j = None) \<and>
            (upd nx a b (nx ! a ! k) ! i ! j \<noteq> NONE \<longrightarrow>
             upd d a b ?x ! i ! j \<noteq> INT_MAX \<and>
             (i = j \<longrightarrow> edge_weight es i i \<noteq> None \<or> upd d a b ?x ! i ! i <s 0))"
      proof (cases "i = a \<and> j = b")
        case True
        then show ?thesis
          using ij a b x nk diag by (simp add: nth_upd [OF sqd] nth_upd [OF sqn])
      next
        case False
        have "(nx ! i ! j = NONE \<longrightarrow>
                 d ! i ! j = (if i = j then 0 else INT_MAX) \<and> edge_weight es i j = None) \<and>
              (nx ! i ! j \<noteq> NONE \<longrightarrow>
                 d ! i ! j \<noteq> INT_MAX \<and> (i = j \<longrightarrow> edge_weight es i i \<noteq> None \<or> d ! i ! i <s 0))"
          using inv ij unfolding next_inv_def t fst_conv snd_conv by blast
        moreover have "upd nx a b (nx ! a ! k) ! i ! j = nx ! i ! j"
          "upd d a b ?x ! i ! j = d ! i ! j"
          using False ij a b by (auto simp: nth_upd [OF sqd] nth_upd [OF sqn])
        moreover have "upd d a b ?x ! i ! i = d ! i ! i" if "i = j"
          using False ij a b that by (auto simp: nth_upd [OF sqd])
        ultimately show ?thesis by auto
      qed
    qed
  qed
qed

lemma next_inv_initial:
  assumes "\<forall>(u, v, w) \<in> set es. w \<noteq> INT_MAX"
    and "\<forall>i<nat (sint nv). \<forall>j<nat (sint nv).
              d ! i ! j = (case edge_weight es i j of Some w \<Rightarrow> w
                           | None \<Rightarrow> if i = j then 0 else INT_MAX) \<and>
              nx ! i ! j = (case edge_weight es i j of Some w \<Rightarrow> word_of_nat j | None \<Rightarrow> NONE)"
  shows "next_inv (nat (sint (nv :: int32))) es (d, nx)"
  unfolding next_inv_def fst_conv snd_conv
proof (intro allI impI)
  fix i j assume ij: "i < nat (sint nv)" "j < nat (sint nv)"
  show "(nx ! i ! j = NONE \<longrightarrow>
          d ! i ! j = (if i = j then 0 else INT_MAX) \<and> edge_weight es i j = None) \<and>
        (nx ! i ! j \<noteq> NONE \<longrightarrow>
          d ! i ! j \<noteq> INT_MAX \<and> (i = j \<longrightarrow> edge_weight es i i \<noteq> None \<or> d ! i ! i <s 0))"
  proof (cases "edge_weight es i j")
    case None
    with assms(2) ij show ?thesis by simp
  next
    case (Some w)
    then have "w \<noteq> INT_MAX" using edge_weight_mem [OF Some] assms(1) by auto
    with Some assms(2) ij word_of_nat_not_NONE [OF ij(2)] show ?thesis by auto
  qed
qed

lemma relax_all_total:
  "squares n s \<Longrightarrow> \<exists>s'. relax_all n s = Inr s' \<and> squares n s'"
  using relax_all_rule [of n s "\<lambda>_. True"] by simp

lemma floydWarshall_cases:
  assumes "valid_input nv es" "floydWarshall nv es = Inr ((d, nx), b)"
  obtains d0 nx0 where "initialise nv es = Inr (d0, nx0)" "squares (nat (sint nv)) (d0, nx0)"
    "\<forall>i<nat (sint nv). \<forall>j<nat (sint nv).
              d0 ! i ! j = (case edge_weight es i j of Some w \<Rightarrow> w
                           | None \<Rightarrow> if i = j then 0 else INT_MAX) \<and>
              nx0 ! i ! j = (case edge_weight es i j of Some w \<Rightarrow> word_of_nat j | None \<Rightarrow> NONE)"
    "relax_all (nat (sint nv)) (d0, nx0) = Inr (d, nx)" "squares (nat (sint nv)) (d, nx)"
    "b = (\<exists>i<nat (sint nv). d ! i ! i <s 0)"
proof -
  obtain d0 nx0 where i: "initialise nv es = Inr (d0, nx0)"
    "squares (nat (sint nv)) (d0, nx0)"
    "\<forall>i<nat (sint nv). \<forall>j<nat (sint nv).
              d0 ! i ! j = (case edge_weight es i j of Some w \<Rightarrow> w
                           | None \<Rightarrow> if i = j then 0 else INT_MAX) \<and>
              nx0 ! i ! j = (case edge_weight es i j of Some w \<Rightarrow> word_of_nat j | None \<Rightarrow> NONE)"
    using initialise_ok [OF assms(1)] by blast
  obtain d' nx' where r: "relax_all (nat (sint nv)) (d0, nx0) = Inr (d', nx')"
    "squares (nat (sint nv)) (d', nx')"
    using relax_all_total [OF i(2)] by auto
  from r(2) have "square (nat (sint nv)) d'" by (simp add: squares_def)
  from floydWarshall_run [OF i(1) r(1) this] assms(2)
  have "d' = d" "nx' = nx" "b = (\<exists>i<nat (sint nv). d ! i ! i <s 0)" by simp_all
  with i r that show thesis by blast
qed

section \<open>The invariant of the outer loop\<close>

lemma oplus_simps [simp]:
  "oplus None y = None" "oplus x None = None" "oplus (Some a) (Some b) = Some (a + b)"
  by (simp_all add: oplus_def split: option.splits)

lemma oplus_eq_Some: "oplus x y = Some c \<longleftrightarrow> (\<exists>a b. x = Some a \<and> y = Some b \<and> c = a + b)"
  by (cases x; cases y) auto

lemma oplus_assoc: "oplus (oplus x y) z = oplus x (oplus y z)"
  by (cases x; cases y; cases z) simp_all

lemma omin_simps [simp]:
  "omin None y = y" "omin x None = x" "omin (Some a) (Some b) = Some (min a b)"
  by (simp_all add: omin_def split: option.splits)

lemma omin_le1: "\<exists>m. omin (Some a) y = Some m \<and> m \<le> a"
  by (cases y) simp_all

lemma omin_le2: "\<exists>m. omin x (Some b) = Some m \<and> m \<le> b"
  by (cases x) simp_all

lemma omin_cases:
  assumes "omin x y = Some c"
  shows "x = Some c \<or> (y = Some c \<and> (\<forall>c0. x = Some c0 \<longrightarrow> c < c0))"
  using assms by (cases x; cases y) (auto simp: min_def split: if_splits)

lemma cost_append: "cost W i (p @ v # q) j = oplus (cost W i p v) (cost W v q j)"
  by (induction p arbitrary: i) (simp_all add: oplus_assoc)

lemma subset_lessThan_Suc:
  "set p \<subseteq> {..<Suc k} \<Longrightarrow> k \<notin> set p \<Longrightarrow> set p \<subseteq> {..<k}"
  by (auto simp: less_Suc_eq)

lemma fw_inv_minimal:
  "fw_inv W n k D \<Longrightarrow> i < n \<Longrightarrow> j < n \<Longrightarrow> set p \<subseteq> {..<k} \<Longrightarrow> cost W i p j = Some c \<Longrightarrow>
   \<exists>c'. D i j = Some c' \<and> c' \<le> c"
  unfolding fw_inv_def minimal_def by blast

lemma fw_inv_attained:
  "fw_inv W n k D \<Longrightarrow> i < n \<Longrightarrow> j < n \<Longrightarrow> D i j = Some c \<Longrightarrow>
   \<exists>p. distinct p \<and> set p \<subseteq> {..<k} \<and> cost W i p j = Some c"
  unfolding fw_inv_def attained_def by blast

text \<open>A walk that starts at \<open>k\<close> may pass through \<open>k\<close> again; when no closed walk through
  \<open>k\<close> is negative, the entry of row \<open>k\<close> is still a lower bound.\<close>

lemma from_pivot:
  assumes inv: "fw_inv W n k D" and k: "k < n" and j: "j < n"
    and kk: "D k k = Some ckk" "0 \<le> ckk"
  shows "set r \<subseteq> {..<Suc k} \<Longrightarrow> cost W k r j = Some y \<Longrightarrow> \<exists>y'. D k j = Some y' \<and> y' \<le> y"
proof (induction r arbitrary: y rule: length_induct)
  case (1 r)
  show ?case
  proof (cases "k \<in> set r")
    case False
    with "1.prems"(1) have "set r \<subseteq> {..<k}" by (rule subset_lessThan_Suc)
    from fw_inv_minimal [OF inv k j this "1.prems"(2)] show ?thesis .
  next
    case True
    then obtain r1 r2 where r: "r = r1 @ k # r2" "k \<notin> set r1"
      by (auto dest: split_list_first)
    from "1.prems"(2) obtain z1 z2 where
      z: "cost W k r1 k = Some z1" "cost W k r2 j = Some z2" "y = z1 + z2"
      unfolding r(1) cost_append oplus_eq_Some by blast
    have "set r1 \<subseteq> {..<k}"
      using "1.prems"(1) r by (auto simp: less_Suc_eq)
    from fw_inv_minimal [OF inv k k this z(1)] kk have "0 \<le> z1" by auto
    have "length r2 < length r" "set r2 \<subseteq> {..<Suc k}"
      using r(1) "1.prems"(1) by auto
    with "1.IH" z(2) obtain y' where "D k j = Some y'" "y' \<le> z2" by blast
    with \<open>0 \<le> z1\<close> z(3) show ?thesis by auto
  qed
qed

lemma minimal_step:
  assumes inv: "fw_inv W n k D" and k: "k < n" and i: "i < n" and j: "j < n"
    and kk: "D k k = Some ckk" "0 \<le> ckk"
    and D': "D' i j = omin (D i j) (oplus (D i k) (D k j))"
  shows "minimal W (Suc k) D' i j"
  unfolding minimal_def
proof (intro allI impI)
  fix p c assume p: "set p \<subseteq> {..<Suc k}" and c: "cost W i p j = Some c"
  show "\<exists>c'. D' i j = Some c' \<and> c' \<le> c"
  proof (cases "k \<in> set p")
    case False
    with p have "set p \<subseteq> {..<k}" by (rule subset_lessThan_Suc)
    from fw_inv_minimal [OF inv i j this c] obtain c0 where c0: "D i j = Some c0" "c0 \<le> c"
      by blast
    from omin_le1 [of c0 "oplus (D i k) (D k j)"] obtain m where
      "omin (Some c0) (oplus (D i k) (D k j)) = Some m" "m \<le> c0" by blast
    with c0 D' show ?thesis by auto
  next
    case True
    then obtain p1 r where pr: "p = p1 @ k # r" "k \<notin> set p1"
      by (auto dest: split_list_first)
    from c obtain x y where
      xy: "cost W i p1 k = Some x" "cost W k r j = Some y" "c = x + y"
      unfolding pr(1) cost_append oplus_eq_Some by blast
    have "set p1 \<subseteq> {..<k}"
      using p pr by (auto simp: less_Suc_eq)
    from fw_inv_minimal [OF inv i k this xy(1)] obtain x' where x': "D i k = Some x'" "x' \<le> x"
      by blast
    have "set r \<subseteq> {..<Suc k}" using p pr(1) by auto
    from from_pivot [OF inv k j kk this xy(2)] obtain y' where y': "D k j = Some y'" "y' \<le> y"
      by blast
    from omin_le2 [of "D i j" "x' + y'"] obtain m where
      "omin (D i j) (Some (x' + y')) = Some m" "m \<le> x' + y'" by blast
    with x' y' xy(3) D' show ?thesis by auto
  qed
qed

lemma attained_step:
  assumes inv: "fw_inv W n k D" and k: "k < n" and i: "i < n" and j: "j < n"
    and kk: "D k k = Some ckk" "0 \<le> ckk"
    and D': "D' i j = omin (D i j) (oplus (D i k) (D k j))"
  shows "attained W (Suc k) D' i j"
  unfolding attained_def
proof (intro allI impI)
  fix c assume "D' i j = Some c"
  with D' have "omin (D i j) (oplus (D i k) (D k j)) = Some c" by simp
  from omin_cases [OF this]
  show "\<exists>p. distinct p \<and> set p \<subseteq> {..<Suc k} \<and> cost W i p j = Some c"
  proof
    assume "D i j = Some c"
    from fw_inv_attained [OF inv i j this] obtain p where
      "distinct p" "set p \<subseteq> {..<k}" "cost W i p j = Some c" by blast
    moreover from this(2) have "set p \<subseteq> {..<Suc k}" by auto
    ultimately show ?thesis by blast
  next
    assume *: "oplus (D i k) (D k j) = Some c \<and> (\<forall>c0. D i j = Some c0 \<longrightarrow> c < c0)"
    then obtain a b where ab: "D i k = Some a" "D k j = Some b" "c = a + b"
      unfolding oplus_eq_Some by blast
    from fw_inv_attained [OF inv i k ab(1)] obtain p where
      p: "distinct p" "set p \<subseteq> {..<k}" "cost W i p k = Some a" by blast
    from fw_inv_attained [OF inv k j ab(2)] obtain q where
      q: "distinct q" "set q \<subseteq> {..<k}" "cost W k q j = Some b" by blast
    have disj: "set p \<inter> set q = {}"
    proof (rule ccontr)
      assume "set p \<inter> set q \<noteq> {}"
      then obtain v where "v \<in> set p" "v \<in> set q" by blast
      from split_list [OF this(1)] split_list [OF this(2)]
      obtain p1 p2 q1 q2 where s: "p = p1 @ v # p2" "q = q1 @ v # q2"
        by blast
      from p(3) obtain x1 x2 where
        x: "cost W i p1 v = Some x1" "cost W v p2 k = Some x2" "a = x1 + x2"
        unfolding s(1) cost_append oplus_eq_Some by blast
      from q(3) obtain y1 y2 where
        y: "cost W k q1 v = Some y1" "cost W v q2 j = Some y2" "b = y1 + y2"
        unfolding s(2) cost_append oplus_eq_Some by blast
      have cyc: "cost W k (q1 @ v # p2) k = Some (y1 + x2)"
        using x(2) y(1) by (simp add: cost_append)
      have "set (q1 @ v # p2) \<subseteq> {..<k}"
        using p(2) q(2) s by auto
      from fw_inv_minimal [OF inv k k this cyc] obtain c' where
        "D k k = Some c'" "c' \<le> y1 + x2" by blast
      with kk have "0 \<le> y1 + x2" by simp
      have short: "cost W i (p1 @ v # q2) j = Some (x1 + y2)"
        using x(1) y(2) by (simp add: cost_append)
      have "set (p1 @ v # q2) \<subseteq> {..<k}"
        using p(2) q(2) s by auto
      from fw_inv_minimal [OF inv i j this short] obtain c0 where
        "D i j = Some c0" "c0 \<le> x1 + y2" by blast
      with * have "c < x1 + y2" by auto
      with \<open>0 \<le> y1 + x2\<close> ab(3) x(3) y(3) show False by simp
    qed
    have "distinct (p @ k # q)"
      using p(1,2) q(1,2) disj by auto
    moreover have "set (p @ k # q) \<subseteq> {..<Suc k}"
      using p(2) q(2) by auto
    moreover have "cost W i (p @ k # q) j = Some c"
      using p(3) q(3) ab(3) by (simp add: cost_append)
    ultimately show ?thesis by blast
  qed
qed

lemma fw_inv_step:
  assumes "fw_inv W n k D" "k < n" "D k k = Some ckk" "0 \<le> ckk"
    and "\<forall>i<n. \<forall>j<n. D' i j = omin (D i j) (oplus (D i k) (D k j))"
  shows "fw_inv W n (Suc k) D'"
  unfolding fw_inv_def
proof (intro allI impI conjI)
  fix i j assume ij: "i < n" "j < n"
  with assms(5) have D': "D' i j = omin (D i j) (oplus (D i k) (D k j))" by simp
  show "attained W (Suc k) D' i j"
    by (rule attained_step [where D = D and D' = D', OF assms(1,2) ij assms(3,4) D'])
  show "minimal W (Suc k) D' i j"
    by (rule minimal_step [where D = D and D' = D', OF assms(1,2) ij assms(3,4) D'])
qed

lemma fw_inv_0: "fw_inv W n 0 W"
  by (simp add: fw_inv_def attained_def minimal_def)

section \<open>One round on machine integers\<close>

lemma upd_same: "upd m i j (m ! i ! j) = m"
  by (simp add: upd_def)

lemma fst_relax_step: "fst (relax_step k i j (d, nx)) = upd d i j (rlx d k i j)"
  by (simp add: relax_step_def rlx_def upd_same)

lemma relax_step_mono:
  assumes "squares n t" "a < n" "b < n" "i < n" "j < n"
  shows "fst (relax_step k a b t) ! i ! j \<le>s fst t ! i ! j"
proof -
  obtain d nx where t: "t = (d, nx)" by (cases t)
  with assms have sq: "square n d" by (simp add: squares_def)
  show ?thesis
    using assms(2-5) unfolding t fst_relax_step
    by (auto simp: nth_upd [OF sq] rlx_def word_sle_eq word_sless_alt)
qed

lemma val_relax:
  fixes a b c :: int32
  assumes "a \<noteq> INT_MAX \<Longrightarrow> \<bar>sint a\<bar> < 1073741824" "b \<noteq> INT_MAX \<Longrightarrow> \<bar>sint b\<bar> < 1073741824"
  shows "val (if a \<noteq> INT_MAX \<and> b \<noteq> INT_MAX \<and> a + b <s c then a + b else c) =
           omin (val c) (oplus (val a) (val b))"
proof (cases "a \<noteq> INT_MAX \<and> b \<noteq> INT_MAX")
  case False
  then show ?thesis by (auto simp: val_def)
next
  case True
  with assms have ab: "\<bar>sint a\<bar> < 1073741824" "\<bar>sint b\<bar> < 1073741824" by simp_all
  then have sum: "sint (a + b) = sint a + sint b"
    by (intro sint_add32) linarith+
  show ?thesis
  proof (cases "a + b <s c")
    case less: True
    then have "a + b \<noteq> INT_MAX" by (rule sless_not_INT_MAX)
    with True less sum show ?thesis
      by (auto simp: val_def word_sless_alt)
  next
    case nless: False
    have "c \<noteq> INT_MAX"
    proof
      assume "c = INT_MAX"
      with nless sum ab show False by (simp add: word_sless_alt sint_INT_MAX)
    qed
    with True nless sum show ?thesis
      by (auto simp: val_def word_sless_alt)
  qed
qed

lemma rlx_pivot:
  fixes a p :: int32
  assumes "a \<noteq> INT_MAX \<Longrightarrow> \<bar>sint a\<bar> < 1073741824" "\<bar>sint p\<bar> < 1073741824" "0 \<le> sint p"
  shows "\<not> (a \<noteq> INT_MAX \<and> a + p <s a)" "\<not> (a \<noteq> INT_MAX \<and> p + a <s a)"
proof -
  have "sint (a + p) = sint a + sint p" if "a \<noteq> INT_MAX"
    using assms that by (intro sint_add32) (simp, linarith)+
  then show "\<not> (a \<noteq> INT_MAX \<and> a + p <s a)"
    using assms(3) by (auto simp: word_sless_alt)
  then show "\<not> (a \<noteq> INT_MAX \<and> p + a <s a)"
    by (simp add: add.commute)
qed

text \<open>One round of the outer loop, when row \<open>k\<close> and column \<open>k\<close> cannot change in it:
  every entry is relaxed against the matrix the round started from.\<close>

lemma relax_round:
  assumes sq: "squares n (d, nx)" and k: "k < n"
    and stable: "\<forall>a<n. rlx d k a k = d ! a ! k \<and> rlx d k k a = d ! k ! a"
  shows "\<exists>d' nx'. for_each [0..<n] (\<lambda>i. for_each [0..<n] (\<lambda>j. relax k i j)) (d, nx) = Inr (d', nx') \<and>
           squares n (d', nx') \<and> (\<forall>a<n. \<forall>b<n. d' ! a ! b = rlx d k a b)"
proof -
  let ?Q = "\<lambda>i j t. squares n t \<and>
      (\<forall>a<n. \<forall>b<n. fst t ! a ! b = (if a < i \<or> (a = i \<and> b < j) then rlx d k a b else d ! a ! b))"
  have inner: "\<exists>t'. relax k i j t = Inr t' \<and> ?Q i (Suc j) t'"
    if "i < n" "j < n" "?Q i j t" for i j t
  proof -
    obtain c m where t: "t = (c, m)" by (cases t)
    from that(3) have sqt: "squares n t" and sqc: "square n c"
      and c: "\<And>a b. a < n \<Longrightarrow> b < n \<Longrightarrow>
            c ! a ! b = (if a < i \<or> (a = i \<and> b < j) then rlx d k a b else d ! a ! b)"
      by (simp_all add: t squares_def)
    have "c ! i ! k = d ! i ! k" "c ! k ! j = d ! k ! j" "c ! i ! j = d ! i ! j"
      using c [of i k] c [of k j] c [of i j] stable that(1,2) k by auto
    then have r: "rlx c k i j = rlx d k i j" by (simp add: rlx_def)
    have "relax k i j t = Inr (relax_step k i j t)"
      using sqt k that(1,2) by (rule relax_eq)
    moreover have "squares n (relax_step k i j t)"
      using sqt by (rule squares_relax_step)
    moreover have "fst (relax_step k i j t) ! a ! b =
        (if a < i \<or> (a = i \<and> b < Suc j) then rlx d k a b else d ! a ! b)"
      if "a < n" "b < n" for a b
      using that \<open>i < n\<close> \<open>j < n\<close> c [OF that]
      by (auto simp: t fst_relax_step r nth_upd [OF sqc] less_Suc_eq)
    ultimately show ?thesis by blast
  qed
  have row: "\<exists>t'. for_each [0..<n] (\<lambda>j. relax k i j) t = Inr t' \<and> ?Q (Suc i) 0 t'"
    if "i < n" "?Q i 0 t" for i t
  proof -
    have "\<exists>t'. for_each [0..<n] (\<lambda>j. relax k i j) t = Inr t' \<and> ?Q i n t'"
    proof (rule for_each_rule [where P = "?Q i"])
      show "?Q i 0 t" by (rule that(2))
    next
      fix j u assume "j < n" "?Q i j u"
      then show "\<exists>t'. relax k i j u = Inr t' \<and> ?Q i (Suc j) t'"
        by (rule inner [OF that(1)])
    qed
    then obtain t' where t': "for_each [0..<n] (\<lambda>j. relax k i j) t = Inr t'" "?Q i n t'"
      by blast
    from t'(2) have "?Q (Suc i) 0 t'" by (auto simp: less_Suc_eq)
    with t'(1) show ?thesis by blast
  qed
  have "\<exists>t'. for_each [0..<n] (\<lambda>i. for_each [0..<n] (\<lambda>j. relax k i j)) (d, nx) = Inr t' \<and> ?Q n 0 t'"
  proof (rule for_each_rule [where P = "\<lambda>i. ?Q i 0"])
    show "?Q 0 0 (d, nx)" using sq by simp
  next
    fix i u assume "i < n" "?Q i 0 u"
    then show "\<exists>t'. for_each [0..<n] (\<lambda>j. relax k i j) u = Inr t' \<and> ?Q (Suc i) 0 t'"
      by (rule row)
  qed
  then obtain t' where t': "for_each [0..<n] (\<lambda>i. for_each [0..<n] (\<lambda>j. relax k i j)) (d, nx) = Inr t'"
    "?Q n 0 t'" by blast
  obtain d' nx' where "t' = (d', nx')" by (cases t')
  with t' show ?thesis by auto
qed

lemma cost_bound:
  assumes "bounded_weights W n B"
  shows "i < n \<Longrightarrow> j < n \<Longrightarrow> set p \<subseteq> {..<n} \<Longrightarrow> cost W i p j = Some c \<Longrightarrow>
         \<bar>c\<bar> \<le> (int (length p) + 1) * B"
proof (induction p arbitrary: i c)
  case Nil
  with assms show ?case by (simp add: bounded_weights_def)
next
  case (Cons v p)
  from Cons.prems(4) obtain a b where ab: "W i v = Some a" "cost W v p j = Some b" "c = a + b"
    by (auto simp: oplus_eq_Some)
  from Cons.prems(3) have v: "v < n" "set p \<subseteq> {..<n}" by auto
  from assms Cons.prems(1) v(1) ab(1) have "\<bar>a\<bar> \<le> B" by (simp add: bounded_weights_def)
  moreover from Cons.IH [OF v(1) Cons.prems(2) v(2) ab(2)] have "\<bar>b\<bar> \<le> (int (length p) + 1) * B" .
  ultimately have "\<bar>c\<bar> \<le> B + (int (length p) + 1) * B" using ab(3) by linarith
  then show ?case by (simp add: algebra_simps)
qed

lemma distinct_length_bound: "distinct p \<Longrightarrow> set p \<subseteq> {..<k} \<Longrightarrow> length p \<le> k"
  by (metis card_lessThan card_mono distinct_card finite_lessThan)

lemma fw_inv_small:
  assumes bw: "bounded_weights W n B" and inv: "fw_inv W n k D" and k: "k \<le> n"
    and ij: "i < n" "j < n" and c: "D i j = Some c"
  shows "\<bar>c\<bar> < 1073741824"
proof -
  from fw_inv_attained [OF inv ij c] obtain p where
    p: "distinct p" "set p \<subseteq> {..<k}" "cost W i p j = Some c" by blast
  from p(1,2) have "length p \<le> k" by (rule distinct_length_bound)
  with k have len: "int (length p) + 1 \<le> int n + 1" by simp
  from p(2) k have "set p \<subseteq> {..<n}" by auto
  from cost_bound [OF bw ij this p(3)] have "\<bar>c\<bar> \<le> (int (length p) + 1) * B" .
  also have "\<dots> \<le> (int n + 1) * B"
    using len bw by (intro mult_right_mono) (simp_all add: bounded_weights_def)
  also have "\<dots> < 1073741824" using bw by (simp add: bounded_weights_def)
  finally show ?thesis .
qed

lemma view_small:
  assumes "bounded_weights W n B" "fw_inv W n k (view d)" "k \<le> n" "i < n" "j < n"
    "d ! i ! j \<noteq> INT_MAX"
  shows "\<bar>sint (d ! i ! j)\<bar> < 1073741824"
  using fw_inv_small [OF assms(1-5), of "sint (d ! i ! j)"] assms(6)
  by (simp add: view_def val_def)

text \<open>A round that starts with the invariant and a pivot entry that is not negative.\<close>

lemma fw_round:
  assumes sq: "squares n (d, nx)" and k: "k < n"
    and bw: "bounded_weights W n B"
    and inv: "fw_inv W n k (view d)"
    and nonneg: "\<not> d ! k ! k <s 0"
  shows "\<exists>d' nx'. for_each [0..<n] (\<lambda>i. for_each [0..<n] (\<lambda>j. relax k i j)) (d, nx) = Inr (d', nx') \<and>
           squares n (d', nx') \<and> fw_inv W n (Suc k) (view d')"
proof -
  from k have kn: "k \<le> n" by simp
  have small: "\<bar>sint (d ! i ! j)\<bar> < 1073741824" if "i < n" "j < n" "d ! i ! j \<noteq> INT_MAX" for i j
    using bw inv kn that by (rule view_small)
  from bw k obtain w where "W k k = Some w" by (auto simp: bounded_weights_def)
  then have "cost W k [] k = Some w" by simp
  from fw_inv_minimal [OF inv k k _ this] obtain ckk where ckk: "view d k k = Some ckk"
    by auto
  then have fin: "d ! k ! k \<noteq> INT_MAX" and ckk_eq: "ckk = sint (d ! k ! k)"
    by (auto simp: view_def val_def split: if_splits)
  from nonneg have pos: "0 \<le> sint (d ! k ! k)" by (simp add: word_sless_alt)
  have pivot: "\<bar>sint (d ! k ! k)\<bar> < 1073741824" using small [OF k k fin] .
  have stable: "\<forall>a<n. rlx d k a k = d ! a ! k \<and> rlx d k k a = d ! k ! a"
  proof (intro allI impI)
    fix a assume a: "a < n"
    have "\<not> (d ! a ! k \<noteq> INT_MAX \<and> d ! a ! k + d ! k ! k <s d ! a ! k)"
      using small [OF a k] pivot pos by (intro rlx_pivot(1)) auto
    moreover have "\<not> (d ! k ! a \<noteq> INT_MAX \<and> d ! k ! k + d ! k ! a <s d ! k ! a)"
      using small [OF k a] pivot pos by (intro rlx_pivot(2)) auto
    ultimately show "rlx d k a k = d ! a ! k \<and> rlx d k k a = d ! k ! a"
      by (auto simp: rlx_def)
  qed
  from relax_round [OF sq k stable] obtain d' nx' where
    run: "for_each [0..<n] (\<lambda>i. for_each [0..<n] (\<lambda>j. relax k i j)) (d, nx) = Inr (d', nx')"
    and sq': "squares n (d', nx')" and d': "\<forall>a<n. \<forall>b<n. d' ! a ! b = rlx d k a b"
    by blast
  have "view d' i j = omin (view d i j) (oplus (view d i k) (view d k j))"
    if "i < n" "j < n" for i j
  proof -
    have "view d' i j = val (rlx d k i j)" using d' that by (simp add: view_def)
    also have "\<dots> = omin (val (d ! i ! j)) (oplus (val (d ! i ! k)) (val (d ! k ! j)))"
      unfolding rlx_def using small [OF that(1) k] small [OF k that(2)] by (intro val_relax) auto
    finally show ?thesis by (simp add: view_def)
  qed
  then have "\<forall>i<n. \<forall>j<n. view d' i j = omin (view d i j) (oplus (view d i k) (view d k j))"
    by blast
  from fw_inv_step [where D = "view d" and D' = "view d'", OF inv k ckk _ this] pos ckk_eq
  have "fw_inv W n (Suc k) (view d')" by simp
  with run sq' show ?thesis by blast
qed

text \<open>A round under an invariant that every single relaxation keeps.\<close>

lemma relax_round_rule:
  assumes sq: "squares n s" and P: "P s" and k: "k < n"
    and step: "\<And>i j t. i < n \<Longrightarrow> j < n \<Longrightarrow> squares n t \<Longrightarrow> P t \<Longrightarrow> P (relax_step k i j t)"
  shows "\<exists>s'. for_each [0..<n] (\<lambda>i. for_each [0..<n] (\<lambda>j. relax k i j)) s = Inr s' \<and>
           squares n s' \<and> P s'"
proof -
  let ?Q = "\<lambda>(m :: nat) t. squares n t \<and> P t"
  have row: "\<exists>t'. for_each [0..<n] (\<lambda>j. relax k i j) t = Inr t' \<and> squares n t' \<and> P t'"
    if "i < n" "squares n t" "P t" for i t
  proof -
    have "\<exists>t'. for_each [0..<n] (\<lambda>j. relax k i j) t = Inr t' \<and> ?Q n t'"
    proof (rule for_each_rule [where P = ?Q])
      show "?Q 0 t" using that by simp
    next
      fix j u assume "j < n" "?Q j u"
      then have "relax k i j u = Inr (relax_step k i j u) \<and> ?Q (Suc j) (relax_step k i j u)"
        using that(1) k by (simp add: relax_eq [where n = n] squares_relax_step step)
      then show "\<exists>t'. relax k i j u = Inr t' \<and> ?Q (Suc j) t'" ..
    qed
    then show ?thesis by simp
  qed
  have "\<exists>t'. for_each [0..<n] (\<lambda>i. for_each [0..<n] (\<lambda>j. relax k i j)) s = Inr t' \<and> ?Q n t'"
  proof (rule for_each_rule [where P = ?Q])
    show "?Q 0 s" using sq P by simp
  next
    fix i u assume "i < n" "?Q i u"
    then show "\<exists>t'. for_each [0..<n] (\<lambda>j. relax k i j) u = Inr t' \<and> ?Q (Suc i) t'"
      using row [of i u] by simp
  qed
  then show ?thesis by simp
qed

lemma negative_round:
  assumes sq: "squares n s" and k: "k < n" and neg: "\<exists>i<n. fst s ! i ! i <s 0"
  shows "\<exists>s'. for_each [0..<n] (\<lambda>i. for_each [0..<n] (\<lambda>j. relax k i j)) s = Inr s' \<and>
           squares n s' \<and> (\<exists>i<n. fst s' ! i ! i <s 0)"
  using sq neg k
proof (rule relax_round_rule)
  fix i j t assume ij: "i < n" "j < n" and t: "squares n t" "\<exists>a<n. fst t ! a ! a <s 0"
  then obtain a where a: "a < n" "fst t ! a ! a <s 0" by blast
  from relax_step_mono [OF t(1) ij a(1) a(1), of k] a(2)
  have "fst (relax_step k i j t) ! a ! a <s 0"
    by (simp add: word_sle_eq word_sless_alt)
  with a(1) show "\<exists>a<n. fst (relax_step k i j t) ! a ! a <s 0" by blast
qed

text \<open>All rounds: at the end either the invariant holds for all vertices as
  intermediates, or some diagonal entry is negative.\<close>

lemma relax_all_fw_inv:
  assumes sq: "squares n s" and bw: "bounded_weights W n B"
    and init: "fw_inv W n 0 (view (fst s))"
  shows "\<exists>s'. relax_all n s = Inr s' \<and> squares n s' \<and>
           (fw_inv W n n (view (fst s')) \<or> (\<exists>i<n. fst s' ! i ! i <s 0))"
proof -
  let ?P = "\<lambda>k t. squares n t \<and> (fw_inv W n k (view (fst t)) \<or> (\<exists>i<n. fst t ! i ! i <s 0))"
  have "\<exists>s'. relax_all n s = Inr s' \<and> ?P n s'"
    unfolding relax_all_def
  proof (rule for_each_rule [where P = ?P])
    show "?P 0 s" using sq init by simp
  next
    fix k t assume k: "k < n" and t: "?P k t"
    obtain d nx where dn: "t = (d, nx)" by (cases t)
    show "\<exists>t'. for_each [0..<n] (\<lambda>i. for_each [0..<n] (\<lambda>j. relax k i j)) t = Inr t' \<and> ?P (Suc k) t'"
    proof (cases "\<exists>i<n. fst t ! i ! i <s 0")
      case True
      from negative_round [OF _ k True] t show ?thesis by blast
    next
      case False
      with t have inv: "fw_inv W n k (view d)" and sqt: "squares n (d, nx)"
        by (auto simp: dn)
      from False k have "\<not> d ! k ! k <s 0" by (auto simp: dn)
      from fw_round [OF sqt k bw inv this] show ?thesis
        unfolding dn by auto
    qed
  qed
  then show ?thesis by simp
qed

section \<open>Walks of the graph and walks of the matrix\<close>

lemma oplus_zero [simp]: "oplus x (Some 0) = x"
  by (cases x) simp_all

lemma walk_weight_cost: "walk_weight es (i # p @ [j]) = cost (graph_weights es) i p j"
  by (induction p arbitrary: i) (simp_all add: graph_weights_def)

lemma walk_shape:
  assumes "vs \<noteq> []"
  shows "vs = [hd vs] \<or> (\<exists>p. vs = hd vs # p @ [last vs])"
proof (cases vs)
  case Nil
  with assms show ?thesis by simp
next
  case (Cons v rest)
  show ?thesis
  proof (cases "rest = []")
    case True
    with Cons show ?thesis by simp
  next
    case False
    then have "rest = butlast rest @ [last rest]" by simp
    with Cons False have "vs = hd vs # butlast rest @ [last vs]" by simp
    then show ?thesis by blast
  qed
qed

lemma graph_edge_in_range:
  assumes "valid_input nv es" "graph_weights es a b = Some x"
  shows "a < nat (sint nv)" "b < nat (sint nv)"
proof -
  from assms(2) obtain w where "edge_weight es a b = Some w"
    by (auto simp: graph_weights_def)
  from edge_weight_mem [OF this] obtain u v where "(u, v, w) \<in> set es" "size_t u = a" "size_t v = b"
    by blast
  with valid_edge [OF assms(1), of u v w] show "a < nat (sint nv)" "b < nat (sint nv)"
    by auto
qed

lemma graph_weights_initial:
  "graph_weights es a b = Some x \<Longrightarrow> initial_weights es a b = Some x"
  by (auto simp: graph_weights_def initial_weights_def)

lemma graph_cost_initial:
  assumes valid: "valid_input nv es"
    and W: "\<forall>a<nat (sint nv). \<forall>b<nat (sint nv). W a b = initial_weights es a b"
  shows "cost (graph_weights es) i p j = Some c \<Longrightarrow>
         i < nat (sint nv) \<and> j < nat (sint nv) \<and> set p \<subseteq> {..<nat (sint nv)} \<and> cost W i p j = Some c"
proof (induction p arbitrary: i c)
  case Nil
  then have g: "graph_weights es i j = Some c" by simp
  from graph_edge_in_range [OF valid g] graph_weights_initial [OF g] W show ?case by simp
next
  case (Cons v p)
  from Cons.prems obtain a b where
    ab: "graph_weights es i v = Some a" "cost (graph_weights es) v p j = Some b" "c = a + b"
    by (auto simp: oplus_eq_Some)
  from graph_edge_in_range [OF valid ab(1)] graph_weights_initial [OF ab(1)] W
  have "i < nat (sint nv)" "v < nat (sint nv)" "W i v = Some a" by simp_all
  with Cons.IH [OF ab(2)] ab(3) show ?case by simp
qed

lemma initial_cost_walk:
  assumes W: "\<forall>a<n. \<forall>b<n. W a b = initial_weights es a b"
  shows "i < n \<Longrightarrow> j < n \<Longrightarrow> set p \<subseteq> {..<n} \<Longrightarrow> cost W i p j = Some c \<Longrightarrow>
         \<exists>vs. walk es i j vs \<and> walk_weight es vs = Some c"
proof (induction p arbitrary: i c)
  case Nil
  with W have w: "initial_weights es i j = Some c" by simp
  show ?case
  proof (cases "edge_weight es i j")
    case None
    with w have "i = j" "c = 0" by (auto simp: initial_weights_def split: if_splits)
    then have "walk es i j [i] \<and> walk_weight es [i] = Some c" by (simp add: walk_def)
    then show ?thesis ..
  next
    case (Some x)
    with w have "c = sint x" by (simp add: initial_weights_def)
    with Some have "walk es i j [i, j] \<and> walk_weight es [i, j] = Some c"
      by (simp add: walk_def)
    then show ?thesis ..
  qed
next
  case (Cons v p)
  from Cons.prems(3) have v: "v < n" "set p \<subseteq> {..<n}" by auto
  from Cons.prems(4) obtain a b where
    ab: "W i v = Some a" "cost W v p j = Some b" "c = a + b"
    by (auto simp: oplus_eq_Some)
  from Cons.IH [OF v(1) Cons.prems(2) v(2) ab(2)] obtain vs where
    vs: "walk es v j vs" "walk_weight es vs = Some b" by blast
  then obtain rest where shape: "vs = v # rest"
    by (cases vs) (auto simp: walk_def)
  from ab(1) W Cons.prems(1) v(1) have w: "initial_weights es i v = Some a" by simp
  show ?case
  proof (cases "edge_weight es i v")
    case None
    with w have "i = v" "a = 0" by (auto simp: initial_weights_def split: if_splits)
    with vs ab(3) show ?thesis by auto
  next
    case (Some x)
    with w have "a = sint x" by (simp add: initial_weights_def)
    with Some vs ab(3) have "walk es i j (i # vs) \<and> walk_weight es (i # vs) = Some c"
      unfolding shape by (simp add: walk_def)
    then show ?thesis ..
  qed
qed

lemma view_initial:
  assumes B: "0 \<le> B" "(sint nv + 1) * B < 1073741824" "0 \<le> sint (nv :: int32)"
    and ws: "\<forall>(u, v, w) \<in> set es. \<bar>sint w\<bar> \<le> B"
    and ini: "\<forall>i<nat (sint nv). \<forall>j<nat (sint nv).
              d ! i ! j = (case edge_weight es i j of Some w \<Rightarrow> w
                           | None \<Rightarrow> if i = j then 0 else INT_MAX) \<and> Q i j"
    and ab: "a < nat (sint nv)" "b < nat (sint nv)"
  shows "view d a b = initial_weights es a b"
proof (cases "edge_weight es a b")
  case None
  with ini ab show ?thesis
    by (simp add: view_def val_def initial_weights_def INT_MAX_def)
next
  case (Some w)
  from edge_weight_mem [OF Some] ws have w: "\<bar>sint w\<bar> \<le> B" by auto
  have "B \<le> (sint nv + 1) * B"
    using B(1,3) by (simp add: mult_le_cancel_right1)
  with w B(2) have "sint w \<noteq> sint INT_MAX" by (simp add: sint_INT_MAX)
  then have "w \<noteq> INT_MAX" by auto
  with Some ini ab show ?thesis
    by (simp add: view_def val_def initial_weights_def)
qed

lemma bounded_initial:
  assumes B: "0 \<le> B" "(sint nv + 1) * B < 1073741824" "0 \<le> sint (nv :: int32)"
    and ws: "\<forall>(u, v, w) \<in> set es. \<bar>sint w\<bar> \<le> B"
    and W: "\<forall>a<nat (sint nv). \<forall>b<nat (sint nv). W a b = initial_weights es a b"
  shows "bounded_weights W (nat (sint nv)) B"
  unfolding bounded_weights_def
proof (intro conjI allI impI)
  show "0 \<le> B" by (rule B(1))
  show "(int (nat (sint nv)) + 1) * B < 1073741824" using B(2,3) by simp
next
  fix a b x assume ab: "a < nat (sint nv)" "b < nat (sint nv)" and x: "W a b = Some x"
  with W have i: "initial_weights es a b = Some x" by simp
  show "\<bar>x\<bar> \<le> B"
  proof (cases "edge_weight es a b")
    case None
    with i B(1) show ?thesis by (auto simp: initial_weights_def split: if_splits)
  next
    case (Some w)
    from edge_weight_mem [OF Some] ws have "\<bar>sint w\<bar> \<le> B" by auto
    with i Some show ?thesis by (simp add: initial_weights_def)
  qed
next
  fix a assume "a < nat (sint nv)"
  with W have "W a a = initial_weights es a a" by simp
  then show "W a a \<noteq> None"
    by (simp add: initial_weights_def split: option.splits)
qed

lemma walk_weight_nonneg:
  "\<forall>(u, v, w) \<in> set es. 0 \<le> sint w \<Longrightarrow> walk_weight es vs = Some c \<Longrightarrow> 0 \<le> c"
proof (induction es vs arbitrary: c rule: walk_weight.induct)
  case (1 es)
  then show ?case by simp
next
  case (2 es v)
  then show ?case by simp
next
  case (3 es u v p)
  from "3.prems"(2) obtain w b where
    w: "edge_weight es u v = Some w" "walk_weight es (v # p) = Some b" "c = sint w + b"
    by (auto simp: oplus_eq_Some)
  from edge_weight_mem [OF w(1)] "3.prems"(1) have "0 \<le> sint w" by auto
  with "3.IH" [OF "3.prems"(1) w(2)] w(3) show ?case by simp
qed

text \<open>All rounds on a graph without a closed walk of negative weight: the invariant
  holds to the end and the diagonal never turns negative.\<close>

lemma relax_all_no_negative_cycle:
  assumes sq: "squares n s" and bw: "bounded_weights W n B"
    and W: "\<forall>a<n. \<forall>b<n. W a b = initial_weights es a b"
    and init: "fw_inv W n 0 (view (fst s))"
    and free: "\<not> negative_cycle es"
  shows "\<exists>s'. relax_all n s = Inr s' \<and> squares n s' \<and> (\<forall>i<n. \<not> fst s' ! i ! i <s 0)"
proof -
  have diag: "\<not> d ! i ! i <s 0" if "fw_inv W n k (view d)" "k \<le> n" "i < n" for d k i
  proof -
    from bw that(3) obtain w where "W i i = Some w" by (auto simp: bounded_weights_def)
    then have "cost W i [] i = Some w" by simp
    from fw_inv_minimal [OF that(1,3,3) _ this] obtain c where c: "view d i i = Some c"
      by auto
    from fw_inv_attained [OF that(1,3,3) c] obtain p where
      p: "set p \<subseteq> {..<k}" "cost W i p i = Some c" by blast
    from p(1) that(2) have "set p \<subseteq> {..<n}" by auto
    from initial_cost_walk [OF W that(3,3) this p(2)] obtain vs where
      "walk es i i vs" "walk_weight es vs = Some c" by blast
    with free have "0 \<le> c" unfolding negative_cycle_def by force
    with c show ?thesis
      by (auto simp: view_def val_def word_sless_alt split: if_splits)
  qed
  let ?P = "\<lambda>k t. squares n t \<and> fw_inv W n k (view (fst t))"
  have "\<exists>s'. relax_all n s = Inr s' \<and> ?P n s'"
    unfolding relax_all_def
  proof (rule for_each_rule [where P = ?P])
    show "?P 0 s" using sq init by simp
  next
    fix k t assume k: "k < n" and t: "?P k t"
    obtain d nx where dn: "t = (d, nx)" by (cases t)
    with t have inv: "fw_inv W n k (view d)" and sqt: "squares n (d, nx)" by simp_all
    from k have "k \<le> n" by simp
    from fw_round [OF sqt k bw inv diag [OF inv this k]]
    show "\<exists>t'. for_each [0..<n] (\<lambda>i. for_each [0..<n] (\<lambda>j. relax k i j)) t = Inr t' \<and> ?P (Suc k) t'"
      unfolding dn by auto
  qed
  then obtain s' where s': "relax_all n s = Inr s'" "squares n s'" "fw_inv W n n (view (fst s'))"
    by blast
  from diag [OF s'(3)] have "\<forall>i<n. \<not> fst s' ! i ! i <s 0" by simp
  with s'(1,2) show ?thesis by blast
qed

section \<open>Properties of the result\<close>

text \<open>C1, as the claim states it, fails. A self-loop of positive weight is written on the
  diagonal, where the shortest walk from a vertex to itself weighs 0. And sums are 32-bit:
  two edges of weight \<open>-2147483647\<close> in a row give the entry 2.\<close>

theorem shortest_paths_counterexample:
  "valid_input 2 [(0, 1, 4), (1, 1, 3)] \<and>
   floydWarshall 2 [(0, 1, 4), (1, 1, 3)] =
     Inr (([[0, 4], [INT_MAX, 3]], [[NONE, 1], [NONE, 1]]), False) \<and>
   \<not> shortest [(0, 1, 4), (1, 1, 3)] 1 1 (sint ([[0, 4], [INT_MAX, 3]] ! 1 ! 1)) \<and>
   valid_input 3 [(0, 1, - 2147483647), (1, 2, - 2147483647)] \<and>
   floydWarshall 3 [(0, 1, - 2147483647), (1, 2, - 2147483647)] =
     Inr (([[0, - 2147483647, 2], [INT_MAX, 0, - 2147483647], [INT_MAX, INT_MAX, 0]],
           [[NONE, 1, 1], [NONE, NONE, 2], [NONE, NONE, NONE]]), False) \<and>
   \<not> shortest [(0, 1, - 2147483647), (1, 2, - 2147483647)] 0 2
        (sint ([[0, - 2147483647, 2], [INT_MAX, 0, - 2147483647], [INT_MAX, INT_MAX, 0]] ! 0 ! 2))"
proof -
  let ?es = "[(0, 1, 4), (1, 1, 3)] :: edge list"
  let ?fs = "[(0, 1, - 2147483647), (1, 2, - 2147483647)] :: edge list"
  have v1: "valid_input 2 ?es" and v2: "valid_input 3 ?fs"
    by (simp_all add: valid_input_def word_sle_eq word_sless_alt)
  have r1: "floydWarshall 2 ?es = Inr (([[0, 4], [INT_MAX, 3]], [[NONE, 1], [NONE, 1]]), False)"
    by code_simp
  have r2: "floydWarshall 3 ?fs =
     Inr (([[0, - 2147483647, 2], [INT_MAX, 0, - 2147483647], [INT_MAX, INT_MAX, 0]],
           [[NONE, 1, 1], [NONE, NONE, 2], [NONE, NONE, NONE]]), False)"
    by code_simp
  have "walk ?es 1 1 [1]" "walk_weight ?es [1] = Some 0"
    by (simp_all add: walk_def)
  then have s1: "\<not> shortest ?es 1 1 3"
    unfolding shortest_def by fastforce
  have e: "edge_weight ?fs 0 1 = Some (- 2147483647)" "edge_weight ?fs 1 2 = Some (- 2147483647)"
    by (simp_all add: edge_weight_def size_t_def)
  then have "walk ?fs 0 2 [0, 1, 2]" "walk_weight ?fs [0, 1, 2] = Some (- 4294967294)"
    by (simp_all add: walk_def)
  then have s2: "\<not> shortest ?fs 0 2 2"
    unfolding shortest_def by fastforce
  show ?thesis
    using v1 v2 r1 r2 s1 s2 by simp
qed

text \<open>C1, amended: let the input be valid, with weights of absolute value at most \<open>B\<close>
  where \<open>(numVertices + 1) * B < 2^30\<close>, and let the returned flag be false. Then for
  \<open>i \<noteq> j\<close> the entry \<open>dist[i][j]\<close> is the shortest-path weight from \<open>i\<close> to \<open>j\<close> in the
  graph of the edge list (the last of several edges between two vertices counts), or
  \<open>INT_MAX\<close> when \<open>j\<close> cannot be reached from \<open>i\<close>; the same holds for \<open>dist[i][i]\<close> when the
  self-loop at \<open>i\<close>, if there is one, does not weigh more than 0.\<close>

theorem shortest_paths:
  assumes valid: "valid_input numVertices edges"
    and B: "0 \<le> B" "(sint numVertices + 1) * B < 1073741824"
    and ws: "\<forall>(u, v, w) \<in> set edges. \<bar>sint w\<bar> \<le> B"
    and run: "floydWarshall numVertices edges = Inr ((dist, nxt), False)"
    and i: "i < nat (sint numVertices)" and j: "j < nat (sint numVertices)"
    and loop: "i = j \<Longrightarrow> \<forall>w. edge_weight edges i i = Some w \<longrightarrow> sint w \<le> 0"
  shows "if reachable edges i j
         then dist ! i ! j \<noteq> INT_MAX \<and> shortest edges i j (sint (dist ! i ! j))
         else dist ! i ! j = INT_MAX"
proof -
  let ?n = "nat (sint numVertices)"
  from valid have nv: "0 \<le> sint numVertices" by (simp add: valid_input_def word_sle_eq)
  from valid run obtain d0 nx0 where
    sq: "squares ?n (d0, nx0)"
    and ini: "\<forall>i<?n. \<forall>j<?n.
              d0 ! i ! j = (case edge_weight edges i j of Some w \<Rightarrow> w
                           | None \<Rightarrow> if i = j then 0 else INT_MAX) \<and>
              nx0 ! i ! j = (case edge_weight edges i j of Some w \<Rightarrow> word_of_nat j | None \<Rightarrow> NONE)"
    and rel: "relax_all ?n (d0, nx0) = Inr (dist, nxt)"
    and flag: "False = (\<exists>i<?n. dist ! i ! i <s 0)"
    by (rule floydWarshall_cases)
  let ?W = "view d0"
  have W: "\<forall>a<?n. \<forall>b<?n. ?W a b = initial_weights edges a b"
    using view_initial [OF B nv ws ini] by blast
  have bw: "bounded_weights ?W ?n B"
    using B nv ws W by (rule bounded_initial)
  have "fw_inv ?W ?n 0 (view (fst (d0, nx0)))" by (simp add: fw_inv_0)
  from relax_all_fw_inv [OF sq bw this] rel flag
  have inv: "fw_inv ?W ?n ?n (view dist)" by auto
  have lower: "\<exists>c'. view dist i j = Some c' \<and> c' \<le> c"
    if "walk edges i j vs" "walk_weight edges vs = Some c" for vs c
  proof -
    from that(1) have vs: "vs \<noteq> []" "hd vs = i" "last vs = j" by (simp_all add: walk_def)
    from walk_shape [OF vs(1)] show ?thesis
    proof
      assume "vs = [hd vs]"
      with vs that(2) have ij: "i = j" and c: "c = 0"
        by (metis last.simps, metis option.inject walk_weight.simps(2))
      from W i have "?W i i = initial_weights edges i i" by simp
      with loop [OF ij] obtain x where x: "cost ?W i [] i = Some x" "x \<le> 0"
        by (auto simp: initial_weights_def split: option.splits)
      from fw_inv_minimal [OF inv i i _ x(1)] x(2) ij c show ?thesis by auto
    next
      assume "\<exists>p. vs = hd vs # p @ [last vs]"
      then obtain p where "vs = i # p @ [j]" using vs by auto
      with that(2) have "cost (graph_weights edges) i p j = Some c"
        by (simp add: walk_weight_cost)
      from graph_cost_initial [OF valid W this] have "set p \<subseteq> {..<?n}" "cost ?W i p j = Some c"
        by simp_all
      from fw_inv_minimal [OF inv i j this] show ?thesis .
    qed
  qed
  show ?thesis
  proof (cases "dist ! i ! j = INT_MAX")
    case True
    then have "view dist i j = None" by (simp add: view_def val_def)
    with lower have "\<not> reachable edges i j"
      by (auto simp: reachable_def walk_def)
    with True show ?thesis by simp
  next
    case False
    then have v: "view dist i j = Some (sint (dist ! i ! j))" by (simp add: view_def val_def)
    from fw_inv_attained [OF inv i j v] obtain p where
      "set p \<subseteq> {..<?n}" "cost ?W i p j = Some (sint (dist ! i ! j))" by blast
    from initial_cost_walk [OF W i j this] obtain vs where
      vs: "walk edges i j vs" "walk_weight edges vs = Some (sint (dist ! i ! j))" by blast
    then have "reachable edges i j" by (auto simp: reachable_def)
    moreover have "shortest edges i j (sint (dist ! i ! j))"
      unfolding shortest_def using vs lower v by fastforce
    ultimately show ?thesis using False by simp
  qed
qed

theorem shortest_paths_witness:
  "valid_input 4 [(0, 1, - 2), (1, 2, 3), (2, 3, - 4), (0, 3, 1)] \<and>
   floydWarshall 4 [(0, 1, - 2), (1, 2, 3), (2, 3, - 4), (0, 3, 1)] =
     Inr (([[0, - 2, 1, - 3], [INT_MAX, 0, 3, - 1], [INT_MAX, INT_MAX, 0, - 4],
            [INT_MAX, INT_MAX, INT_MAX, 0]],
           [[NONE, 1, 1, 1], [NONE, NONE, 2, 2], [NONE, NONE, NONE, 3],
            [NONE, NONE, NONE, NONE]]), False) \<and>
   reachable [(0, 1, - 2), (1, 2, 3), (2, 3, - 4), (0, 3, 1)] 0 3 \<and>
   shortest [(0, 1, - 2), (1, 2, 3), (2, 3, - 4), (0, 3, 1)] 0 3 (- 3)"
proof -
  let ?es = "[(0, 1, - 2), (1, 2, 3), (2, 3, - 4), (0, 3, 1)] :: edge list"
  let ?d = "[[0, - 2, 1, - 3], [INT_MAX, 0, 3, - 1], [INT_MAX, INT_MAX, 0, - 4],
            [INT_MAX, INT_MAX, INT_MAX, 0]]"
  have v: "valid_input 4 ?es"
    by (simp add: valid_input_def word_sle_eq word_sless_alt)
  have r: "floydWarshall 4 ?es =
     Inr ((?d, [[NONE, 1, 1, 1], [NONE, NONE, 2, 2], [NONE, NONE, NONE, 3],
            [NONE, NONE, NONE, NONE]]), False)"
    by code_simp
  have ws: "\<forall>(u, v, w) \<in> set ?es. \<bar>sint w\<bar> \<le> 4" by simp
  have "if reachable ?es 0 3
         then ?d ! 0 ! 3 \<noteq> INT_MAX \<and> shortest ?es 0 3 (sint (?d ! 0 ! 3))
         else ?d ! 0 ! 3 = INT_MAX"
    by (rule shortest_paths [OF v _ _ ws r]) simp_all
  then have "reachable ?es 0 3 \<and> shortest ?es 0 3 (- 3)"
    by (simp add: INT_MAX_def split: if_splits)
  with v r show ?thesis by simp
qed

text \<open>C8: with no vertex and no edge the function returns two empty matrices and no
  negative cycle.\<close>

theorem no_vertices: "floydWarshall 0 [] = Inr (([], []), False)"
  by (simp add: floydWarshall_def initialise_def vector_def init_diagonal_def init_edges_def relax_all_def)

text \<open>C6: a negative vertex count ends the call at the first allocation, as an error,
  before any matrix exists.\<close>

theorem negative_numVertices_rejected:
  "numVertices <s 0 \<Longrightarrow> floydWarshall numVertices edges = Inl LengthError"
  by (simp add: floydWarshall_def initialise_def vector_def)

theorem negative_numVertices_rejected_witness:
  "(- 1 :: int32) <s 0 \<and> floydWarshall (- 1) [(0, 1, 5)] = Inl LengthError"
  using negative_numVertices_rejected [of "- 1" "[(0, 1, 5)]"] by simp

text \<open>C10: on a valid input every read and write of the matrices is in range: the call
  ends normally, with two square matrices.\<close>

theorem accesses_in_bounds:
  assumes "valid_input numVertices edges"
  shows "\<exists>dist nxt negativeCycle.
           floydWarshall numVertices edges = Inr ((dist, nxt), negativeCycle) \<and>
           squares (nat (sint numVertices)) (dist, nxt)"
proof -
  obtain d0 nx0 where i: "initialise numVertices edges = Inr (d0, nx0)"
    "squares (nat (sint numVertices)) (d0, nx0)"
    using initialise_ok [OF assms] by blast
  obtain d nx where r: "relax_all (nat (sint numVertices)) (d0, nx0) = Inr (d, nx)"
    "squares (nat (sint numVertices)) (d, nx)"
    using relax_all_total [OF i(2)] by auto
  from r(2) have "square (nat (sint numVertices)) d" by (simp add: squares_def)
  from floydWarshall_run [OF i(1) r(1) this] r(2) show ?thesis by blast
qed

theorem accesses_in_bounds_witness:
  "valid_input 2 [(0, 1, 3)] \<and>
   (\<exists>dist nxt negativeCycle. floydWarshall 2 [(0, 1, 3)] = Inr ((dist, nxt), negativeCycle) \<and>
      squares (nat (sint (2 :: int32))) (dist, nxt))"
proof -
  have v: "valid_input 2 [(0, 1, 3)]" by (simp add: valid_input_def word_sle_eq word_sless_alt)
  show ?thesis using v accesses_in_bounds [OF v] by simp
qed

text \<open>C2: the flag says whether the returned distance matrix has a negative entry on
  its diagonal.\<close>

theorem flag_iff_negative_diagonal:
  assumes "valid_input numVertices edges"
    and "floydWarshall numVertices edges = Inr ((dist, nxt), negativeCycle)"
  shows "negativeCycle \<longleftrightarrow> (\<exists>i<nat (sint numVertices). dist ! i ! i <s 0)"
  using assms by (rule floydWarshall_cases)

theorem flag_iff_negative_diagonal_witness:
  "valid_input 3 [(0, 1, - 1), (1, 2, - 2), (2, 0, - 3)] \<and>
   floydWarshall 3 [(0, 1, - 1), (1, 2, - 2), (2, 0, - 3)] =
     Inr (([[- 6, - 7, - 9], [- 5, - 6, - 8], [- 9, - 10, - 12]],
           [[1, 1, 1], [2, 2, 2], [0, 0, 0]]), True) \<and>
   (True \<longleftrightarrow> (\<exists>i<nat (sint (3 :: int32)).
      [[- 6, - 7, - 9], [- 5, - 6, - 8], [- 9, - 10, - 12 :: int32]] ! i ! i <s 0))"
proof -
  have v: "valid_input 3 [(0, 1, - 1), (1, 2, - 2), (2, 0, - 3)]"
    by (simp add: valid_input_def word_sle_eq word_sless_alt)
  have r: "floydWarshall 3 [(0, 1, - 1), (1, 2, - 2), (2, 0, - 3)] =
     Inr (([[- 6, - 7, - 9], [- 5, - 6, - 8], [- 9, - 10, - 12]],
           [[1, 1, 1], [2, 2, 2], [0, 0, 0]]), True)"
    by code_simp
  show ?thesis
    using v r flag_iff_negative_diagonal [OF v r] by blast
qed

text \<open>C9: the first test of the source, five vertices and nine edges. Row 0 of the
  distance matrix is \<open>[0, 8, 9, 5, 7]\<close>, the flag is false and \<open>next[0][1]\<close> is 3; the
  result is the pair of matrices the test expects.\<close>

theorem scenario_A:
  "floydWarshall 5 [(0, 1, 10), (0, 3, 5), (1, 3, 2), (1, 2, 1), (2, 4, 4), (3, 1, 3),
                    (3, 2, 9), (3, 4, 2), (4, 2, 6)] =
     Inr (([[0, 8, 9, 5, 7],
            [INT_MAX, 0, 1, 2, 4],
            [INT_MAX, INT_MAX, 0, INT_MAX, 4],
            [INT_MAX, 3, 4, 0, 2],
            [INT_MAX, INT_MAX, 6, INT_MAX, 0]],
           [[NONE, 3, 3, 3, 3],
            [NONE, NONE, 2, 3, 3],
            [NONE, NONE, NONE, NONE, 4],
            [NONE, 1, 1, NONE, 4],
            [NONE, NONE, 2, NONE, NONE]]), False)"
  by code_simp

text \<open>C7: an edge that no later edge of the list repeats gives the entries of both
  matrices after lines 36 to 41, whatever the earlier edges between the same two vertices
  weighed; no minimum is taken.\<close>

theorem later_edge_overwrites:
  assumes "valid_input numVertices (es1 @ (u, v, w) # es2)"
    and "\<forall>(u', v', w') \<in> set es2. \<not> (u' = u \<and> v' = v)"
  shows "\<exists>dist nxt. initialise numVertices (es1 @ (u, v, w) # es2) = Inr (dist, nxt) \<and>
           dist ! size_t u ! size_t v = w \<and> nxt ! size_t u ! size_t v = v"
proof -
  let ?es = "es1 @ (u, v, w) # es2" and ?n = "nat (sint numVertices)"
  have uv: "size_t u < ?n" "size_t v < ?n" "0 \<le> sint v" "0 \<le> sint u"
    using assms(1) valid_edge [OF assms(1), of u v w]
    by (auto simp: valid_input_def word_sle_eq)
  have "\<not> (size_t u' = size_t u \<and> size_t v' = size_t v)" if "(u', v', w') \<in> set es2" for u' v' w'
  proof -
    from that have "(u', v', w') \<in> set ?es" by simp
    from valid_edge_nonneg [OF assms(1) this] have "0 \<le> sint u'" "0 \<le> sint v'" .
    with uv that assms(2) show ?thesis
      by (auto dest: size_t_inj)
  qed
  then have w: "edge_weight ?es (size_t u) (size_t v) = Some w"
    by (intro edge_weight_last) auto
  from initialise_ok [OF assms(1)] obtain d nx where
    "initialise numVertices ?es = Inr (d, nx)"
    "\<forall>i<?n. \<forall>j<?n.
        d ! i ! j = (case edge_weight ?es i j of Some w \<Rightarrow> w
                     | None \<Rightarrow> if i = j then 0 else INT_MAX) \<and>
        nx ! i ! j = (case edge_weight ?es i j of Some w \<Rightarrow> word_of_nat j | None \<Rightarrow> NONE)"
    by blast
  with uv w show ?thesis
    by (auto simp: word_of_nat_size_t)
qed

theorem later_edge_overwrites_witness:
  "valid_input 2 ([(0, 1, 1)] @ (0, 1, 5) # [(1, 0, 2)]) \<and>
   (\<exists>dist nxt. initialise 2 ([(0, 1, 1)] @ (0, 1, 5) # [(1, 0, 2)]) = Inr (dist, nxt) \<and>
           dist ! size_t 0 ! size_t 1 = 5 \<and> nxt ! size_t 0 ! size_t 1 = 1)"
proof -
  have v: "valid_input 2 ([(0, 1, 1)] @ (0, 1, 5) # [(1, 0, 2)])"
    by (simp add: valid_input_def word_sle_eq word_sless_alt)
  have n: "\<forall>(u', v', w') \<in> set [(1, 0, 2 :: int32)]. \<not> (u' = (0 :: int32) \<and> v' = (1 :: int32))"
    by simp
  show ?thesis
    using v later_edge_overwrites [OF v n] by blast
qed

text \<open>C3, as the claim states it, fails: the sum of two finite entries is an \<open>int\<close>
  addition without any check. With two edges of weight \<open>INT_MAX - 1\<close> the sum wraps to
  \<open>-4\<close>, which is less than the sentinel, and is stored.\<close>

theorem overflow_wraps_counterexample:
  "floydWarshall 3 [(0, 1, 2147483646), (1, 2, 2147483646)] =
     Inr (([[0, 2147483646, - 4], [INT_MAX, 0, 2147483646], [INT_MAX, INT_MAX, 0]],
           [[NONE, 1, 1], [NONE, NONE, 2], [NONE, NONE, NONE]]), False) \<and>
   sint (- 4 :: int32) < sint (2147483646 :: int32) + sint (2147483646 :: int32)"
proof -
  have "floydWarshall 3 [(0, 1, 2147483646), (1, 2, 2147483646)] =
     Inr (([[0, 2147483646, - 4], [INT_MAX, 0, 2147483646], [INT_MAX, INT_MAX, 0]],
           [[NONE, 1, 1], [NONE, NONE, 2], [NONE, NONE, NONE]]), False)"
    by code_simp
  then show ?thesis by simp
qed

text \<open>C3, amended: when both entries are finite the update happens exactly when the
  32-bit sum is less than \<open>dist[i][j]\<close>; when the exact sum fits the \<open>int\<close> range, the
  32-bit sum is the exact sum and the comparison is the exact one.\<close>

theorem relax_finite_sum:
  assumes "squares n (dist, nxt)" "k < n" "i < n" "j < n"
    and "dist ! i ! k \<noteq> INT_MAX" "dist ! k ! j \<noteq> INT_MAX"
  shows "relax k i j (dist, nxt) =
           Inr (if dist ! i ! k + dist ! k ! j <s dist ! i ! j
                then (upd dist i j (dist ! i ! k + dist ! k ! j), upd nxt i j (nxt ! i ! k))
                else (dist, nxt)) \<and>
         (- 2147483648 \<le> sint (dist ! i ! k) + sint (dist ! k ! j) \<and>
          sint (dist ! i ! k) + sint (dist ! k ! j) < 2147483648 \<longrightarrow>
            sint (dist ! i ! k + dist ! k ! j) = sint (dist ! i ! k) + sint (dist ! k ! j) \<and>
            (dist ! i ! k + dist ! k ! j <s dist ! i ! j \<longleftrightarrow>
               sint (dist ! i ! k) + sint (dist ! k ! j) < sint (dist ! i ! j)))"
  using assms relax_eq [OF assms(1-4)]
  by (simp add: relax_step_def sint_add32 word_sless_alt)

theorem relax_finite_sum_witness:
  "squares 3 ([[0, 3, INT_MAX], [INT_MAX, 0, 4], [INT_MAX, INT_MAX, 0]],
              [[NONE, 1, NONE], [NONE, NONE, 2], [NONE, NONE, NONE]]) \<and>
   relax 1 0 2 ([[0, 3, INT_MAX], [INT_MAX, 0, 4], [INT_MAX, INT_MAX, 0]],
                [[NONE, 1, NONE], [NONE, NONE, 2], [NONE, NONE, NONE]]) =
     Inr ([[0, 3, 7], [INT_MAX, 0, 4], [INT_MAX, INT_MAX, 0]],
          [[NONE, 1, 1], [NONE, NONE, 2], [NONE, NONE, NONE]])"
proof -
  let ?d = "[[0, 3, INT_MAX], [INT_MAX, 0, 4], [INT_MAX, INT_MAX, 0]]"
  let ?nx = "[[NONE, 1, NONE], [NONE, NONE, 2], [NONE, NONE, NONE]]"
  have sq: "squares 3 (?d, ?nx)"
    by (simp add: squares_def square_def less_Suc_eq numeral_3_eq_3)
  have fin: "?d ! 0 ! 1 \<noteq> INT_MAX" "?d ! 1 ! 2 \<noteq> INT_MAX"
    by (simp_all add: INT_MAX_def)
  show ?thesis
    using sq relax_finite_sum [OF sq, of 1 0 2, OF _ _ _ fin]
    by (simp add: upd_def INT_MAX_def word_sless_alt)
qed

text \<open>C4, as the claim states it, fails twice. An edge from a vertex to itself
  overwrites the 0 of the diagonal, also when its weight is positive. And a diagonal entry
  can turn negative without a negative cycle, when a sum of two large positive weights
  wraps around.\<close>

theorem diagonal_counterexample:
  "floydWarshall 1 [(0, 0, 5)] = Inr (([[5]], [[0]]), False) \<and> \<not> ((5 :: int32) \<le>s 0) \<and>
   floydWarshall 2 [(0, 1, 2147483646), (1, 0, 2147483646)] =
     Inr (([[- 4, 2147483642], [2147483642, - 8]], [[1, 1], [0, 0]]), True) \<and>
   (- 4 :: int32) <s 0 \<and>
   \<not> negative_cycle [(0, 1, 2147483646), (1, 0, 2147483646)]"
proof -
  have r1: "floydWarshall 1 [(0, 0, 5)] = Inr (([[5]], [[0]]), False)"
    by code_simp
  have r2: "floydWarshall 2 [(0, 1, 2147483646), (1, 0, 2147483646)] =
     Inr (([[- 4, 2147483642], [2147483642, - 8]], [[1, 1], [0, 0]]), True)"
    by code_simp
  have "\<forall>(u, v, w) \<in> set [(0, 1, 2147483646), (1, 0, 2147483646 :: int32)]. 0 \<le> sint w"
    by simp
  from walk_weight_nonneg [OF this] have "\<not> negative_cycle [(0, 1, 2147483646), (1, 0, 2147483646)]"
    unfolding negative_cycle_def by fastforce
  with r1 r2 show ?thesis by (simp add: word_sle_eq word_sless_alt)
qed

text \<open>C4, amended: for a vertex whose self-loop, if the graph has one, does not weigh
  more than 0, the diagonal entry of the result is at most 0; and when the weights are at
  most \<open>B\<close> in absolute value, with \<open>(numVertices + 1) * B < 2^30\<close>, a negative diagonal
  entry means that the graph has a closed walk of negative weight.\<close>

theorem diagonal_entries:
  assumes valid: "valid_input numVertices edges"
    and run: "floydWarshall numVertices edges = Inr ((dist, nxt), negativeCycle)"
    and i: "i < nat (sint numVertices)"
  shows "((\<forall>w. edge_weight edges i i = Some w \<longrightarrow> w \<le>s 0) \<longrightarrow> dist ! i ! i \<le>s 0) \<and>
         (0 \<le> B \<and> (sint numVertices + 1) * B < 1073741824 \<and>
          (\<forall>(u, v, w) \<in> set edges. \<bar>sint w\<bar> \<le> B) \<and> dist ! i ! i <s 0 \<longrightarrow>
            negative_cycle edges)"
proof -
  let ?n = "nat (sint numVertices)"
  from valid have nv: "0 \<le> sint numVertices" by (simp add: valid_input_def word_sle_eq)
  from valid run obtain d0 nx0 where
    sq: "squares ?n (d0, nx0)"
    and ini: "\<forall>i<?n. \<forall>j<?n.
              d0 ! i ! j = (case edge_weight edges i j of Some w \<Rightarrow> w
                           | None \<Rightarrow> if i = j then 0 else INT_MAX) \<and>
              nx0 ! i ! j = (case edge_weight edges i j of Some w \<Rightarrow> word_of_nat j | None \<Rightarrow> NONE)"
    and rel: "relax_all ?n (d0, nx0) = Inr (dist, nxt)"
    by (rule floydWarshall_cases)
  have first: "dist ! i ! i \<le>s 0" if "\<forall>w. edge_weight edges i i = Some w \<longrightarrow> w \<le>s 0"
  proof -
    have "d0 ! i ! i \<le>s 0"
      using ini i that by (auto split: option.splits)
    then have "fst (d0, nx0) ! i ! i \<le>s 0" by simp
    from relax_all_result [of ?n "(d0, nx0)" "\<lambda>s. fst s ! i ! i \<le>s 0", OF sq this rel]
    show ?thesis
      using relax_step_diag [OF _ _ _ _ i] by simp
  qed
  have second: "negative_cycle edges"
    if B: "0 \<le> B" "(sint numVertices + 1) * B < 1073741824"
      and ws: "\<forall>(u, v, w) \<in> set edges. \<bar>sint w\<bar> \<le> B" and neg: "dist ! i ! i <s 0"
  proof (rule ccontr)
    assume free: "\<not> negative_cycle edges"
    have W: "\<forall>a<?n. \<forall>b<?n. view d0 a b = initial_weights edges a b"
      using view_initial [OF B nv ws ini] by blast
    have bw: "bounded_weights (view d0) ?n B"
      using B nv ws W by (rule bounded_initial)
    have "fw_inv (view d0) ?n 0 (view (fst (d0, nx0)))" by (simp add: fw_inv_0)
    from relax_all_no_negative_cycle [OF sq bw W this free] rel
    have "\<forall>i<?n. \<not> dist ! i ! i <s 0" by auto
    with i neg show False by simp
  qed
  from first second show ?thesis by blast
qed

theorem diagonal_entries_witness:
  "valid_input 2 [(0, 1, 3), (1, 1, - 2)] \<and>
   floydWarshall 2 [(0, 1, 3), (1, 1, - 2)] =
     Inr (([[0, 1], [INT_MAX, - 4]], [[NONE, 1], [NONE, 1]]), True) \<and>
   edge_weight [(0, 1, 3), (1, 1, - 2)] 1 1 = Some (- 2) \<and>
   [[0, 1], [INT_MAX, - 4]] ! 1 ! 1 \<le>s 0 \<and>
   negative_cycle [(0, 1, 3), (1, 1, - 2)]"
proof -
  let ?es = "[(0, 1, 3), (1, 1, - 2)] :: edge list"
  have v: "valid_input 2 ?es"
    by (simp add: valid_input_def word_sle_eq word_sless_alt)
  have r: "floydWarshall 2 ?es =
     Inr (([[0, 1], [INT_MAX, - 4]], [[NONE, 1], [NONE, 1]]), True)"
    by code_simp
  have i: "1 < nat (sint (2 :: int32))" by simp
  have e: "edge_weight ?es 1 1 = Some (- 2)"
    by (simp add: edge_weight_def size_t_def)
  have ws: "\<forall>(u, v, w) \<in> set ?es. \<bar>sint w\<bar> \<le> 3" by simp
  have neg: "[[0, 1], [INT_MAX, - 4 :: int32]] ! 1 ! 1 <s 0"
    by (simp add: word_sless_alt)
  from diagonal_entries [OF v r i, of 3] e ws neg
  have "[[0, 1], [INT_MAX, - 4]] ! 1 ! 1 \<le>s 0 \<and> negative_cycle ?es"
    by (simp add: word_sle_eq)
  with v r e show ?thesis by simp
qed

text \<open>C5, as the claim states it, fails: a self-loop fills \<open>next[i][i]\<close>.\<close>

theorem self_loop_next_counterexample:
  "floydWarshall 1 [(0, 0, 7)] = Inr (([[7]], [[0]]), False) \<and>
   (0 :: int32) \<noteq> NONE \<and> (7 :: int32) \<noteq> INT_MAX"
proof -
  have "floydWarshall 1 [(0, 0, 7)] = Inr (([[7]], [[0]]), False)"
    by code_simp
  then show ?thesis by (simp add: NONE_def INT_MAX_def)
qed

text \<open>C5, amended: when no edge weighs \<open>INT_MAX\<close>, then off the diagonal \<open>next[i][j]\<close>
  is filled exactly when \<open>dist[i][j]\<close> is finite, and on the diagonal \<open>next[i][i]\<close> is
  filled exactly when the graph has a self-loop at \<open>i\<close> or \<open>dist[i][i]\<close> is negative.\<close>

theorem next_none_iff:
  assumes "valid_input numVertices edges"
    and "\<forall>(u, v, w) \<in> set edges. w \<noteq> INT_MAX"
    and "floydWarshall numVertices edges = Inr ((dist, nxt), negativeCycle)"
    and "i < nat (sint numVertices)" "j < nat (sint numVertices)"
  shows "nxt ! i ! j \<noteq> NONE \<longleftrightarrow>
           (if i = j then edge_weight edges i i \<noteq> None \<or> dist ! i ! i <s 0
            else dist ! i ! j \<noteq> INT_MAX)"
proof -
  let ?n = "nat (sint numVertices)"
  from assms(1,3) obtain d0 nx0 where
    sq: "squares ?n (d0, nx0)"
    and ini: "\<forall>i<?n. \<forall>j<?n.
              d0 ! i ! j = (case edge_weight edges i j of Some w \<Rightarrow> w
                           | None \<Rightarrow> if i = j then 0 else INT_MAX) \<and>
              nx0 ! i ! j = (case edge_weight edges i j of Some w \<Rightarrow> word_of_nat j | None \<Rightarrow> NONE)"
    and run: "relax_all ?n (d0, nx0) = Inr (dist, nxt)"
    by (rule floydWarshall_cases)
  have "next_inv ?n edges (d0, nx0)"
    using assms(2) ini by (rule next_inv_initial)
  from relax_all_result [of ?n "(d0, nx0)" "next_inv ?n edges", OF sq this run]
  have "next_inv ?n edges (dist, nxt)"
    using next_inv_relax_step by blast
  then show ?thesis
    using assms(4,5) unfolding next_inv_def fst_conv snd_conv
    by (cases "nxt ! i ! j = NONE") (auto simp: word_sless_alt INT_MAX_def)
qed

theorem next_none_iff_witness:
  "valid_input 2 [(0, 1, 3)] \<and>
   floydWarshall 2 [(0, 1, 3)] =
     Inr (([[0, 3], [INT_MAX, 0]], [[NONE, 1], [NONE, NONE]]), False) \<and>
   ([[NONE, 1], [NONE, NONE]] ! 0 ! 1 \<noteq> NONE \<longleftrightarrow>
      (if (0 :: nat) = 1
       then edge_weight [(0, 1, 3)] 0 0 \<noteq> None \<or> [[0, 3], [INT_MAX, 0]] ! 0 ! 0 <s 0
       else [[0, 3], [INT_MAX, 0]] ! 0 ! 1 \<noteq> INT_MAX))"
proof -
  have v: "valid_input 2 [(0, 1, 3)]"
    by (simp add: valid_input_def word_sle_eq word_sless_alt)
  have w: "\<forall>(u, v, w) \<in> set [(0, 1, 3 :: int32)]. w \<noteq> INT_MAX"
    by (simp add: INT_MAX_def)
  have r: "floydWarshall 2 [(0, 1, 3)] =
     Inr (([[0, 3], [INT_MAX, 0]], [[NONE, 1], [NONE, NONE]]), False)"
    by code_simp
  have i: "0 < nat (sint (2 :: int32))" "1 < nat (sint (2 :: int32))" by simp_all
  show ?thesis
    using v r next_none_iff [OF v w r i] by blast
qed

end
